theory Spec2Isabelle
  imports Main "HOL-Library.AList"
begin

section \<open>Data model\<close>

text \<open>
  The class \<open>Configuration\<close> keeps five level stores, the merged configuration, a
  buffer of changed keys and a list of listeners. Every entry of a store is a
  JavaScript object (an \<open>IConfigurationObject\<close>) held by reference: the same object
  is placed in a store and in the merged configuration, and the class writes its
  \<open>level\<close> and \<open>readonly\<close> fields in place. Objects therefore live in an explicit
  heap, and a \<open>ConfigValue\<close> that is an object is an address into it.
\<close>

type_synonym key = string
type_synonym addr = nat
type_synonym timer = nat
type_synonym callback = nat

text \<open>
  Modelled from the spec: the enum \<open>CONFIGLEVEL\<close>, whose file \<open>enums/CONFIGLEVEL\<close> is
  not among the sources. These are the five members the class names, and the five
  levels the specification lists.
\<close>

datatype CONFIGLEVEL = DEFAULT | ENVIRONMENT | BACKEND | USER | DYNAMIC

datatype ERRORCODES =
    UNKNOWN_CONFIG_KEY
  | DEFAULTCONFIG_MUST_BE_OBJECT
  | INSTANCE_NEEDS_DEFAULTCONFIGS
  | NO_CONFIGURATION_INSTANCE
  | NO_BACKEND_UPDATE_FN
  | BACKEND_UPDATE_FAILED
  | CONFIGURATIONS_NOT_BUILT_YET
  | UNKNOWN_CONFIG_LEVEL
  | INVALID_CONFIG_TYPE

text \<open>
  What a call can throw: a \<open>ConfigurationError\<close> carrying one of the messages above,
  or the runtime's own \<open>TypeError\<close> (\<open>Object.keys\<close> of \<open>undefined\<close> or \<open>null\<close>).
\<close>

datatype error = ConfigurationError ERRORCODES | TypeError

text \<open>\<open>string | number | boolean\<close>. The class never computes with a number.\<close>

datatype prim = Str string | Num int | Bool bool

text \<open>
  \<open>ConfigValue = string | number | boolean | IConfigurationObject\<close>; reading a missing
  property gives \<open>undefined\<close>, and a \<open>Partial<T>\<close> may hold it explicitly. The type has
  no \<open>null\<close>.
\<close>

datatype ConfigValue = Undefined | Prim prim | Obj addr

text \<open>The field \<open>value\<close> is written \<open>val\<close>.\<close>

record IConfigurationObject =
  val :: ConfigValue
  level :: CONFIGLEVEL
  readonly :: "bool option"

text \<open>
  A plain object \<open>{k1: v1, ...}\<close>: its own properties in insertion order.
  \<open>obj[k]\<close> is \<open>get_prop\<close>, \<open>obj[k] = v\<close> is \<open>AList.update\<close> (in place for a present
  key, appended otherwise) and \<open>delete obj[k]\<close> is \<open>AList.delete\<close>. JavaScript lists
  keys that look like array indices first; the properties proved below are about what is
  stored under a key, not about the order of the keys.
\<close>

type_synonym jsobject = "(key \<times> ConfigValue) list"

definition get_prop :: "jsobject \<Rightarrow> key \<Rightarrow> ConfigValue" where
  "get_prop obj k = (case map_of obj k of None \<Rightarrow> Undefined | Some v \<Rightarrow> v)"

text \<open>\<open>{...target, ...src}\<close>: every own key of \<open>src\<close> is assigned onto \<open>target\<close>.\<close>

definition spread :: "jsobject \<Rightarrow> jsobject \<Rightarrow> jsobject" where
  "spread target src = fold (\<lambda>k. AList.update k (get_prop src k)) (map fst src) target"

text \<open>What a caller holds after a shallow copy, or a listener sees in its payload.\<close>

datatype observed = ObsUndefined | ObsPrim prim | ObsObject IConfigurationObject

record IConfigurationOptions =
  singleton :: bool
  backendUpdateFn :: bool
  backendUpdateIntervalMs :: nat
  backendUpdateStartImmediate :: bool
  readOnlyKeys :: "key list"

text \<open>
  \<open>Partial<IConfigurationOptions>\<close>. The backend function itself is outside the class:
  the option records whether one was given, and each of its results is a parameter of
  the call that awaits it.
\<close>

record PartialOptions =
  p_singleton :: "bool option"
  p_backendUpdateFn :: bool
  p_backendUpdateIntervalMs :: "nat option"
  p_backendUpdateStartImmediate :: "bool option"
  p_readOnlyKeys :: "key list option"

text \<open>
  A listener id is \<open>`listener-id-${listeners.length}-${Math.round(Math.random() * 10000)}`\<close>;
  the two numbers determine the string, so the pair stands for it.
\<close>

type_synonym listener_id = "nat \<times> nat"

text \<open>The fields \<open>id\<close>, \<open>keys\<close> and \<open>callback\<close>; a callback is known by a number.\<close>

record IListener =
  l_id :: listener_id
  l_keys :: "key list"
  l_callback :: callback

type_synonym payload = "(key \<times> observed) list"

text \<open>
  The instance fields, followed by the runtime around them: the object heap with its
  allocation pointer, the pending timers, and the log of callback invocations.
\<close>

record state =
  options :: IConfigurationOptions
  defaultConfig :: jsobject
  environmentConfig :: jsobject
  backendConfig :: jsobject
  userConfig :: jsobject
  dynamicConfig :: jsobject
  changedKeysBuffer :: "key set"
  config :: "jsobject option"
  listeners :: "IListener list"
  backendUpdateTimeout :: "timer option"
  heap :: "addr \<Rightarrow> IConfigurationObject"
  nextAddr :: addr
  timers :: "timer set"
  nextTimer :: timer
  calls :: "(IListener \<times> payload) list"

section \<open>Building configuration objects\<close>

text \<open>A new object literal: the next free address holds it.\<close>

definition alloc :: "IConfigurationObject \<Rightarrow> state \<Rightarrow> addr \<times> state" where
  "alloc c s = (nextAddr s, s\<lparr>heap := (heap s)(nextAddr s := c), nextAddr := Suc (nextAddr s)\<rparr>)"

text \<open>\<open>valObj.level = level\<close>, written through the reference.\<close>

definition set_level :: "addr \<Rightarrow> CONFIGLEVEL \<Rightarrow> state \<Rightarrow> state" where
  "set_level a lvl s = s\<lparr>heap := (heap s)(a := (heap s a)\<lparr>level := lvl\<rparr>)\<rparr>"

text \<open>\<open>valObj.readonly = true\<close>, written through the reference.\<close>

definition set_readonly :: "addr \<Rightarrow> state \<Rightarrow> state" where
  "set_readonly a s = s\<lparr>heap := (heap s)(a := (heap s a)\<lparr>readonly := Some True\<rparr>)\<rparr>"

text \<open>
  One round of the \<open>forEach\<close> of \<open>buildConfigurationObjects\<close>: an object value keeps
  its identity and has its level overwritten; any other value is wrapped in a new object.
\<close>

definition buildConfigurationObjects_step ::
  "jsobject \<Rightarrow> CONFIGLEVEL \<Rightarrow> key \<Rightarrow> jsobject \<times> state \<Rightarrow> jsobject \<times> state" where
  "buildConfigurationObjects_step conf lvl k acc =
     (case acc of (builtConfig, s) \<Rightarrow>
       (case get_prop conf k of
          Obj a \<Rightarrow> (AList.update k (Obj a) builtConfig, set_level a lvl s)
        | v \<Rightarrow>
           (case alloc \<lparr>val = v, level = lvl,
                        readonly = Some (k \<in> set (readOnlyKeys (options s)))\<rparr> s of
              (a, s') \<Rightarrow> (AList.update k (Obj a) builtConfig, s'))))"

definition buildConfigurationObjects ::
  "state \<Rightarrow> jsobject \<Rightarrow> CONFIGLEVEL \<Rightarrow> jsobject \<times> state" where
  "buildConfigurationObjects s conf lvl =
     fold (buildConfigurationObjects_step conf lvl) (map fst conf) ([], s)"

definition buildDefaultValues :: "state \<Rightarrow> jsobject \<Rightarrow> jsobject \<times> state" where
  "buildDefaultValues s conf = buildConfigurationObjects s conf DEFAULT"

section \<open>Rebuilding the merged configuration\<close>

text \<open>The assignment to \<open>this.config\<close> in \<open>buildConfig\<close>: five builds, spread in order.\<close>

definition buildConfig_merge :: "state \<Rightarrow> state" where
  "buildConfig_merge s0 =
     (case buildDefaultValues s0 (defaultConfig s0) of (d, s1) \<Rightarrow>
      case buildConfigurationObjects s1 (environmentConfig s1) ENVIRONMENT of (e, s2) \<Rightarrow>
      case buildConfigurationObjects s2 (backendConfig s2) BACKEND of (b, s3) \<Rightarrow>
      case buildConfigurationObjects s3 (userConfig s3) USER of (u, s4) \<Rightarrow>
      case buildConfigurationObjects s4 (dynamicConfig s4) DYNAMIC of (dy, s5) \<Rightarrow>
        s5\<lparr>config := Some (spread (spread (spread (spread (spread [] d) e) b) u) dy)\<rparr>)"

definition resetReadOnlyFlags_step :: "jsobject \<Rightarrow> key \<Rightarrow> state \<Rightarrow> state" where
  "resetReadOnlyFlags_step cfg k s =
     (if k \<in> set (readOnlyKeys (options s))
      then (case get_prop cfg k of Obj a \<Rightarrow> set_readonly a s | _ \<Rightarrow> s)
      else s)"

text \<open>
  The loop never changes \<open>this.config\<close>, so the guard repeated inside its body is the
  guard at its head.
\<close>

definition resetReadOnlyFlags :: "state \<Rightarrow> error + state" where
  "resetReadOnlyFlags s =
     (case config s of
        None \<Rightarrow> Inl (ConfigurationError CONFIGURATIONS_NOT_BUILT_YET)
      | Some cfg \<Rightarrow> Inr (fold (resetReadOnlyFlags_step cfg) (map fst cfg) s))"

definition observe :: "(addr \<Rightarrow> IConfigurationObject) \<Rightarrow> ConfigValue \<Rightarrow> observed" where
  "observe h v = (case v of Undefined \<Rightarrow> ObsUndefined | Prim p \<Rightarrow> ObsPrim p | Obj a \<Rightarrow> ObsObject (h a))"

definition snapshot :: "(addr \<Rightarrow> IConfigurationObject) \<Rightarrow> jsobject \<Rightarrow> payload" where
  "snapshot h obj = map (\<lambda>(k, v). (k, observe h v)) obj"

text \<open>The inner \<open>forEach\<close> of \<open>triggerListeners\<close>, over the keys of one listener.\<close>

definition relevantChanges :: "jsobject \<Rightarrow> key set \<Rightarrow> key list \<Rightarrow> jsobject" where
  "relevantChanges cfg buf ks =
     fold (\<lambda>k rc. if k \<in> buf then AList.update k (get_prop cfg k) rc else rc) ks []"

text \<open>
  One round of the outer \<open>forEach\<close>. A callback is an observer: its invocation is
  recorded with what it is handed, and it does not call back into the instance.
\<close>

definition notify :: "jsobject \<Rightarrow> IListener \<Rightarrow> state \<Rightarrow> state" where
  "notify cfg listener s =
     (if length (l_keys listener) = 0
      then s\<lparr>calls := calls s @ [(listener, snapshot (heap s) cfg)]\<rparr>
      else (let rc = relevantChanges cfg (changedKeysBuffer s) (l_keys listener)
            in if length (map fst rc) > 0
               then s\<lparr>calls := calls s @ [(listener, snapshot (heap s) rc)]\<rparr>
               else s))"

definition triggerListeners :: "state \<Rightarrow> state" where
  "triggerListeners s =
     (case config s of
        None \<Rightarrow> s
      | Some cfg \<Rightarrow> (fold (notify cfg) (listeners s) s)\<lparr>changedKeysBuffer := {}\<rparr>)"

definition buildConfig :: "state \<Rightarrow> error + state" where
  "buildConfig s =
     (case resetReadOnlyFlags (buildConfig_merge s) of
        Inl e \<Rightarrow> Inl e
      | Inr s' \<Rightarrow> Inr (triggerListeners s'))"

section \<open>Reading\<close>

text \<open>\<open>getConfig\<close> hands out a shallow copy of an object, or the value itself.\<close>

definition getConfig :: "state \<Rightarrow> key \<Rightarrow> error + observed" where
  "getConfig s k =
     (case config s of
        None \<Rightarrow> Inl (ConfigurationError CONFIGURATIONS_NOT_BUILT_YET)
      | Some cfg \<Rightarrow> Inr (observe (heap s) (get_prop cfg k)))"

definition getValue :: "state \<Rightarrow> key \<Rightarrow> ConfigValue" where
  "getValue s k =
     (case config s of
        Some cfg \<Rightarrow>
          (if k \<notin> fst ` set cfg then Undefined
           else (case get_prop cfg k of Obj a \<Rightarrow> val (heap s a) | v \<Rightarrow> v))
      | None \<Rightarrow> Undefined)"

definition getConfigsForLevel :: "state \<Rightarrow> CONFIGLEVEL \<Rightarrow> error + jsobject" where
  "getConfigsForLevel s lvl =
     (case config s of
        None \<Rightarrow> Inl (ConfigurationError CONFIGURATIONS_NOT_BUILT_YET)
      | Some cfg \<Rightarrow>
          (case lvl of
             DEFAULT \<Rightarrow> Inr (spread [] (defaultConfig s))
           | ENVIRONMENT \<Rightarrow> Inr (spread [] (environmentConfig s))
           | BACKEND \<Rightarrow> Inr (spread [] (backendConfig s))
           | USER \<Rightarrow> Inr (spread [] (userConfig s))
           | DYNAMIC \<Rightarrow> Inr (spread [] (dynamicConfig s))))"

section \<open>Subscribing\<close>

text \<open>\<open>Array.isArray(keys) ? keys : [keys]\<close>\<close>

datatype subscribe_keys = KeyArray "key list" | SingleKey key

fun keys_array :: "subscribe_keys \<Rightarrow> key list" where
  "keys_array (KeyArray ks) = ks"
| "keys_array (SingleKey k) = [k]"

text \<open>\<open>rnd\<close> is the value of \<open>Math.round(Math.random() * 10000)\<close> in this call.\<close>

definition subscribe :: "state \<Rightarrow> subscribe_keys \<Rightarrow> callback \<Rightarrow> nat \<Rightarrow> listener_id \<times> state" where
  "subscribe s ks cb rnd =
     (let i = (length (listeners s), rnd);
          listener = \<lparr>l_id = i, l_keys = keys_array ks, l_callback = cb\<rparr>
      in (i, s\<lparr>listeners := listeners s @ [listener]\<rparr>))"

text \<open>The function \<open>subscribe\<close> returns, closed over the id.\<close>

definition unsubscribe :: "listener_id \<Rightarrow> state \<Rightarrow> state" where
  "unsubscribe i s = s\<lparr>listeners := filter (\<lambda>l. l_id l \<noteq> i) (listeners s)\<rparr>"

section \<open>Writing\<close>

text \<open>JavaScript truthiness, for \<open>if (!conf)\<close>.\<close>

fun truthy :: "observed \<Rightarrow> bool" where
  "truthy ObsUndefined = False"
| "truthy (ObsPrim (Str x)) = (x \<noteq> [])"
| "truthy (ObsPrim (Num n)) = (n \<noteq> 0)"
| "truthy (ObsPrim (Bool b)) = b"
| "truthy (ObsObject c) = True"

text \<open>The object \<open>setConfig\<close> stores, built by the assignments of its two branches.\<close>

definition setConfig_object :: "observed \<Rightarrow> ConfigValue \<Rightarrow> IConfigurationObject" where
  "setConfig_object conf v =
     (case conf of
        ObsObject c \<Rightarrow>
          (let confObj1 = c\<lparr>val := v\<rparr>;
               confObj2 = (if level c = DEFAULT then confObj1\<lparr>readonly := Some True\<rparr> else confObj1);
               confObj3 = confObj2\<lparr>level := DYNAMIC\<rparr>
           in confObj3\<lparr>readonly := Some False\<rparr>)
      | _ \<Rightarrow> \<lparr>val = v, level = DYNAMIC, readonly = None\<rparr>)"

definition setConfig :: "state \<Rightarrow> key \<Rightarrow> ConfigValue \<Rightarrow> error + (bool \<times> state)" where
  "setConfig s k v =
     (case config s of
        None \<Rightarrow> Inl (ConfigurationError CONFIGURATIONS_NOT_BUILT_YET)
      | Some cfg \<Rightarrow>
          (case getConfig s k of
             Inl e \<Rightarrow> Inl e
           | Inr conf \<Rightarrow>
               if \<not> truthy conf then Inl (ConfigurationError UNKNOWN_CONFIG_KEY)
               else if k \<in> set (readOnlyKeys (options s)) then Inr (False, s)
               else (case alloc (setConfig_object conf v) s of
                       (a, s1) \<Rightarrow>
                         (case buildConfig
                                 (s1\<lparr>dynamicConfig := AList.update k (Obj a) (dynamicConfig s1),
                                     changedKeysBuffer := insert k (changedKeysBuffer s1)\<rparr>) of
                            Inl e \<Rightarrow> Inl e
                          | Inr s2 \<Rightarrow> Inr (True, s2)))))"

definition deleteConfig :: "state \<Rightarrow> key \<Rightarrow> error + state" where
  "deleteConfig s k =
     buildConfig (s\<lparr>dynamicConfig := AList.delete k (dynamicConfig s),
                    changedKeysBuffer := insert k (changedKeysBuffer s)\<rparr>)"

definition updateChangedKeysBufferWithPartialConfig ::
  "state \<Rightarrow> jsobject \<Rightarrow> jsobject option \<Rightarrow> state" where
  "updateChangedKeysBufferWithPartialConfig s newConf oldConf =
     fold (\<lambda>k t.
             (let t1 = t\<lparr>changedKeysBuffer := insert k (changedKeysBuffer t)\<rparr>
              in if oldConf \<noteq> None \<and> \<not> (k \<in> fst ` set newConf)
                 then t1\<lparr>changedKeysBuffer := insert k (changedKeysBuffer t1)\<rparr>
                 else t1))
          (map fst newConf) s"

definition setEnvironmentConfig :: "state \<Rightarrow> jsobject \<Rightarrow> bool \<Rightarrow> error + state" where
  "setEnvironmentConfig s conf override =
     (if override
      then (let oldEnv = spread [] (environmentConfig s)
            in case buildConfigurationObjects s conf ENVIRONMENT of
                 (built, s1) \<Rightarrow>
                   buildConfig (updateChangedKeysBufferWithPartialConfig
                                  (s1\<lparr>environmentConfig := built\<rparr>) conf (Some oldEnv)))
      else (case buildConfigurationObjects s conf ENVIRONMENT of
              (built, s1) \<Rightarrow>
                buildConfig (updateChangedKeysBufferWithPartialConfig
                               (s1\<lparr>environmentConfig := spread (spread [] (environmentConfig s)) built\<rparr>)
                               conf None)))"

definition setBackendConfig :: "state \<Rightarrow> jsobject \<Rightarrow> bool \<Rightarrow> error + state" where
  "setBackendConfig s conf override =
     (if override
      then (let oldBackend = spread [] (backendConfig s)
            in case buildConfigurationObjects s conf BACKEND of
                 (built, s1) \<Rightarrow>
                   buildConfig (updateChangedKeysBufferWithPartialConfig
                                  (s1\<lparr>backendConfig := built\<rparr>) conf (Some oldBackend)))
      else (case buildConfigurationObjects s conf BACKEND of
              (built, s1) \<Rightarrow>
                buildConfig (updateChangedKeysBufferWithPartialConfig
                               (s1\<lparr>backendConfig := spread (spread [] (backendConfig s)) built\<rparr>)
                               conf None)))"

text \<open>The \<open>reduce\<close> at the head of \<open>setUserConfig\<close>.\<close>

definition filteredConfig :: "state \<Rightarrow> jsobject \<Rightarrow> jsobject" where
  "filteredConfig s conf =
     fold (\<lambda>k acc. if k \<notin> set (readOnlyKeys (options s))
                    then AList.update k (get_prop conf k) acc else acc)
          (map fst conf) []"

definition setUserConfig :: "state \<Rightarrow> jsobject \<Rightarrow> bool \<Rightarrow> error + state" where
  "setUserConfig s conf override =
     (let filtered = filteredConfig s conf
      in if override
         then (let oldUser = spread [] (userConfig s)
               in case buildConfigurationObjects s filtered USER of
                    (built, s1) \<Rightarrow>
                      buildConfig (updateChangedKeysBufferWithPartialConfig
                                     (s1\<lparr>userConfig := built\<rparr>) filtered (Some oldUser)))
         else (case buildConfigurationObjects s filtered USER of
                 (built, s1) \<Rightarrow>
                   buildConfig (updateChangedKeysBufferWithPartialConfig
                                  (s1\<lparr>userConfig := spread (spread [] (userConfig s)) built\<rparr>)
                                  filtered None)))"

section \<open>The backend refresh loop\<close>

text \<open>
  How the awaited call of \<open>backendUpdateFn\<close> ends: it throws or its promise rejects, or
  it resolves to a result (\<open>None\<close> for \<open>undefined\<close> or \<open>null\<close>).
\<close>

datatype fetch_outcome = Rejects | Resolves "jsobject option"

definition clearTimeout :: "timer \<Rightarrow> state \<Rightarrow> state" where
  "clearTimeout t s = s\<lparr>timers := timers s - {t}\<rparr>"

text \<open>\<open>this.backendUpdateTimeout = setTimeout(...)\<close>: a new pending timer.\<close>

definition setTimeout :: "state \<Rightarrow> state" where
  "setTimeout s =
     s\<lparr>backendUpdateTimeout := Some (nextTimer s),
        timers := insert (nextTimer s) (timers s),
        nextTimer := Suc (nextTimer s)\<rparr>"

text \<open>\<open>runBackendAutoUpdate\<close> up to its \<open>await\<close>.\<close>

definition runBackendAutoUpdate_start :: "state \<Rightarrow> error + state" where
  "runBackendAutoUpdate_start s =
     (if \<not> backendUpdateFn (options s) then Inl (ConfigurationError NO_BACKEND_UPDATE_FN)
      else (case backendUpdateTimeout s of
              Some t \<Rightarrow> Inr (clearTimeout t s)
            | None \<Rightarrow> Inr s))"

text \<open>
  \<open>runBackendAutoUpdate\<close> from its \<open>await\<close> on: whatever is thrown inside the \<open>try\<close>
  leaves as \<open>BACKEND_UPDATE_FAILED\<close>, and the timer is set after the \<open>try\<close> only.
\<close>

definition runBackendAutoUpdate_finish :: "state \<Rightarrow> fetch_outcome \<Rightarrow> error + state" where
  "runBackendAutoUpdate_finish s r =
     (case r of
        Rejects \<Rightarrow> Inl (ConfigurationError BACKEND_UPDATE_FAILED)
      | Resolves res \<Rightarrow>
          (case (case res of
                   None \<Rightarrow> Inr s
                 | Some obj \<Rightarrow>
                     if length (map fst obj) > 0 then setBackendConfig s obj True else Inr s) of
             Inl e \<Rightarrow> Inl (ConfigurationError BACKEND_UPDATE_FAILED)
           | Inr s1 \<Rightarrow> Inr (setTimeout s1)))"

text \<open>A whole run, nothing else happening while the call is awaited.\<close>

definition runBackendAutoUpdate :: "state \<Rightarrow> fetch_outcome \<Rightarrow> error + state" where
  "runBackendAutoUpdate s r =
     (case runBackendAutoUpdate_start s of
        Inl e \<Rightarrow> Inl e
      | Inr s1 \<Rightarrow> runBackendAutoUpdate_finish s1 r)"

definition startBackendAutoUpdate :: "state \<Rightarrow> fetch_outcome \<Rightarrow> error + (bool \<times> state)" where
  "startBackendAutoUpdate s r =
     (if \<not> backendUpdateFn (options s) then Inl (ConfigurationError NO_BACKEND_UPDATE_FN)
      else if backendUpdateTimeout s \<noteq> None \<and> backendUpdateFn (options s) then Inr (True, s)
      else if backendUpdateFn (options s)
           then (case runBackendAutoUpdate s r of
                   Inl e \<Rightarrow> Inl e
                 | Inr s1 \<Rightarrow> Inr (True, s1))
           else Inr (False, s))"

definition stopBackendAutoUpdate :: "state \<Rightarrow> state" where
  "stopBackendAutoUpdate s =
     (case backendUpdateTimeout s of
        Some t \<Rightarrow> (clearTimeout t s)\<lparr>backendUpdateTimeout := None\<rparr>
      | None \<Rightarrow> s)"

text \<open>
  The timer's callback: a pending timer fires once and calls \<open>runBackendAutoUpdate\<close>
  without awaiting or catching it. When the run throws, the state is the one the run
  had reached: the timer it cleared stays cleared, and nothing after the \<open>throw\<close> ran.
\<close>

definition timer_fires :: "state \<Rightarrow> timer \<Rightarrow> fetch_outcome \<Rightarrow> state" where
  "timer_fires s t r =
     (if t \<notin> timers s then s
      else (let s0 = s\<lparr>timers := timers s - {t}\<rparr>
            in case runBackendAutoUpdate_start s0 of
                 Inl e \<Rightarrow> s0
               | Inr s1 \<Rightarrow>
                   (case runBackendAutoUpdate_finish s1 r of
                      Inl e \<Rightarrow> s1
                    | Inr s2 \<Rightarrow> s2)))"

section \<open>Construction\<close>

text \<open>What a caller can pass as \<open>defaultConfig\<close> once the type checker is bypassed.\<close>

datatype jsarg = ArgUndefined | ArgNull | ArgPrim prim | ArgObject jsobject

fun decimal :: "nat \<Rightarrow> string" where
  "decimal n =
     (if n < 10 then [''0123456789'' ! n]
      else decimal (n div 10) @ [''0123456789'' ! (n mod 10)])"

text \<open>
  The own enumerable properties \<open>Object.keys\<close> and \<open>conf[key]\<close> find on the argument:
  \<open>undefined\<close> and \<open>null\<close> make \<open>Object.keys\<close> throw, a string has its characters under
  their indices, a number or a boolean has none.
\<close>

fun own_properties :: "jsarg \<Rightarrow> error + jsobject" where
  "own_properties ArgUndefined = Inl TypeError"
| "own_properties ArgNull = Inl TypeError"
| "own_properties (ArgPrim (Str x)) =
     Inr (map (\<lambda>i. (decimal i, Prim (Str [x ! i]))) [0..<length x])"
| "own_properties (ArgPrim (Num n)) = Inr []"
| "own_properties (ArgPrim (Bool b)) = Inr []"
| "own_properties (ArgObject obj) = Inr obj"

text \<open>\<open>{ ...this.options, ...options }\<close> over the field initialiser.\<close>

definition merge_options :: "PartialOptions \<Rightarrow> IConfigurationOptions" where
  "merge_options opts =
     \<lparr>singleton = (case p_singleton opts of None \<Rightarrow> False | Some b \<Rightarrow> b),
      backendUpdateFn = p_backendUpdateFn opts,
      backendUpdateIntervalMs = (case p_backendUpdateIntervalMs opts of None \<Rightarrow> 60000 | Some n \<Rightarrow> n),
      backendUpdateStartImmediate =
        (case p_backendUpdateStartImmediate opts of None \<Rightarrow> False | Some b \<Rightarrow> b),
      readOnlyKeys = (case p_readOnlyKeys opts of None \<Rightarrow> [] | Some ks \<Rightarrow> ks)\<rparr>"

text \<open>The runtime a new instance is created in.\<close>

record runtime =
  rt_heap :: "addr \<Rightarrow> IConfigurationObject"
  rt_nextAddr :: addr
  rt_timers :: "timer set"
  rt_nextTimer :: timer

text \<open>The fields of a new instance before the constructor body runs.\<close>

definition initial_fields :: "PartialOptions \<Rightarrow> runtime \<Rightarrow> state" where
  "initial_fields opts rt =
     \<lparr>options = merge_options opts,
      defaultConfig = [], environmentConfig = [], backendConfig = [],
      userConfig = [], dynamicConfig = [],
      changedKeysBuffer = {}, config = None, listeners = [],
      backendUpdateTimeout = None,
      heap = rt_heap rt, nextAddr = rt_nextAddr rt,
      timers = rt_timers rt, nextTimer = rt_nextTimer rt, calls = []\<rparr>"

text \<open>
  \<open>new Configuration(defaultConfig, options)\<close>, given the static \<open>Configuration.instance\<close>.
  It returns the instance and the new value of the static field. The immediate
  \<open>runBackendAutoUpdate()\<close> runs up to its \<open>await\<close>; its promise is dropped.
\<close>

definition Configuration_new ::
  "state option \<Rightarrow> jsarg \<Rightarrow> PartialOptions \<Rightarrow> runtime \<Rightarrow> error + (state \<times> state option)" where
  "Configuration_new inst defaultConf opts rt =
     (case (if p_singleton opts = Some True then inst else None) of
        Some existing \<Rightarrow> Inr (existing, inst)
      | None \<Rightarrow>
          (case own_properties defaultConf of
             Inl e \<Rightarrow> Inl e
           | Inr conf \<Rightarrow>
               (case buildDefaultValues (initial_fields opts rt) conf of
                  (d, s1) \<Rightarrow>
                    (case buildConfig (s1\<lparr>defaultConfig := d\<rparr>) of
                       Inl e \<Rightarrow> Inl e
                     | Inr s2 \<Rightarrow>
                         (let inst' = (if singleton (options s2) then Some s2 else inst);
                              s3 = (if backendUpdateFn (options s2)
                                       \<and> backendUpdateStartImmediate (options s2)
                                    then (case runBackendAutoUpdate_start s2 of
                                            Inl e \<Rightarrow> s2 | Inr s' \<Rightarrow> s')
                                    else s2)
                          in Inr (s3, inst'))))))"

section \<open>Static helpers\<close>

definition helperSetValue :: "state \<Rightarrow> ConfigValue \<Rightarrow> prim \<Rightarrow> ConfigValue \<times> state" where
  "helperSetValue s original newValue =
     (case original of
        Obj a \<Rightarrow> (case alloc ((heap s a)\<lparr>val := Prim newValue\<rparr>) s of (b, s') \<Rightarrow> (Obj b, s'))
      | _ \<Rightarrow> (Prim newValue, s))"

definition helperGetValue :: "state \<Rightarrow> ConfigValue \<Rightarrow> ConfigValue" where
  "helperGetValue s original =
     (case original of
        Obj a \<Rightarrow> (case val (heap s a) of Prim p \<Rightarrow> Prim p | _ \<Rightarrow> Undefined)
      | _ \<Rightarrow> original)"

section \<open>Closed forms and invariants\<close>

text \<open>
  Auxiliary notions for the proofs. None of them is part of the class: they describe
  what one rebuild does to the heap, to the merged configuration and to the call log
  when every entry of every store is an allocated object, which is the case in every
  state the class can reach.
\<close>

text \<open>The addresses of the objects a property list holds.\<close>

definition refs :: "jsobject \<Rightarrow> addr set" where
  "refs obj = {a. \<exists>k. (k, Obj a) \<in> set obj}"

text \<open>A store with distinct keys whose every entry is an object allocated below \<open>n\<close>.\<close>

definition store_ok :: "addr \<Rightarrow> jsobject \<Rightarrow> bool" where
  "store_ok n obj \<longleftrightarrow> distinct (map fst obj) \<and> (\<forall>(k, v) \<in> set obj. \<exists>a<n. v = Obj a)"

text \<open>The heap after \<open>level\<close> has been overwritten in the objects at the addresses \<open>A\<close>.\<close>

definition relevel :: "addr set \<Rightarrow> CONFIGLEVEL \<Rightarrow> (addr \<Rightarrow> IConfigurationObject) \<Rightarrow> addr \<Rightarrow> IConfigurationObject" where
  "relevel A lvl h = (\<lambda>a. if a \<in> A then (h a)\<lparr>level := lvl\<rparr> else h a)"

text \<open>\<open>s'\<close> differs from \<open>s\<close> in the heap and the allocation pointer at most.\<close>

definition heap_only :: "state \<Rightarrow> state \<Rightarrow> bool" where
  "heap_only s s' \<longleftrightarrow> s' = s\<lparr>heap := heap s', nextAddr := nextAddr s'\<rparr>"

text \<open>The five stores spread in the order of \<open>buildConfig\<close>.\<close>

definition merged :: "state \<Rightarrow> jsobject" where
  "merged s =
     spread (spread (spread (spread (spread [] (defaultConfig s)) (environmentConfig s))
       (backendConfig s)) (userConfig s)) (dynamicConfig s)"

text \<open>The heap after the five builds of \<open>buildConfig\<close>, the default store first.\<close>

definition levelled :: "state \<Rightarrow> addr \<Rightarrow> IConfigurationObject" where
  "levelled s =
     relevel (refs (dynamicConfig s)) DYNAMIC
       (relevel (refs (userConfig s)) USER
         (relevel (refs (backendConfig s)) BACKEND
           (relevel (refs (environmentConfig s)) ENVIRONMENT
             (relevel (refs (defaultConfig s)) DEFAULT (heap s)))))"

text \<open>The heap after \<open>resetReadOnlyFlags\<close> on the configuration \<open>cfg\<close>.\<close>

definition flagged ::
  "key list \<Rightarrow> jsobject \<Rightarrow> (addr \<Rightarrow> IConfigurationObject) \<Rightarrow> addr \<Rightarrow> IConfigurationObject" where
  "flagged ro cfg h =
     (\<lambda>a. if \<exists>k\<in>set ro. map_of cfg k = Some (Obj a) then (h a)\<lparr>readonly := Some True\<rparr> else h a)"

text \<open>The calls one listener receives in \<open>triggerListeners\<close>: one or none.\<close>

definition notification ::
  "(addr \<Rightarrow> IConfigurationObject) \<Rightarrow> jsobject \<Rightarrow> key set \<Rightarrow> IListener \<Rightarrow> (IListener \<times> payload) list" where
  "notification h cfg buf l =
     (if l_keys l = [] then [(l, snapshot h cfg)]
      else if relevantChanges cfg buf (l_keys l) = [] then []
      else [(l, snapshot h (relevantChanges cfg buf (l_keys l)))])"

definition stores_ok :: "state \<Rightarrow> bool" where
  "stores_ok s \<longleftrightarrow>
     store_ok (nextAddr s) (defaultConfig s) \<and> store_ok (nextAddr s) (environmentConfig s) \<and>
     store_ok (nextAddr s) (backendConfig s) \<and> store_ok (nextAddr s) (userConfig s) \<and>
     store_ok (nextAddr s) (dynamicConfig s)"

text \<open>The state \<open>buildConfig\<close> returns, given such stores.\<close>

definition rebuilt :: "state \<Rightarrow> state" where
  "rebuilt s =
     s\<lparr>heap := flagged (readOnlyKeys (options s)) (merged s) (levelled s),
       config := Some (merged s),
       calls := calls s @ concat (map (notification
                  (flagged (readOnlyKeys (options s)) (merged s) (levelled s))
                  (merged s) (changedKeysBuffer s)) (listeners s)),
       changedKeysBuffer := {}\<rparr>"

section \<open>Operations and reachable states\<close>

text \<open>
  A caller's argument is well formed when every object in it has been allocated.
  Anything a JavaScript caller can pass is of this kind.
\<close>

definition arg_ok :: "addr \<Rightarrow> jsobject \<Rightarrow> bool" where
  "arg_ok n conf \<longleftrightarrow> (\<forall>(k, v) \<in> set conf. \<forall>a. v = Obj a \<longrightarrow> a < n)"

fun jsarg_ok :: "addr \<Rightarrow> jsarg \<Rightarrow> bool" where
  "jsarg_ok n (ArgObject obj) = arg_ok n obj"
| "jsarg_ok n other = True"

fun outcome_ok :: "addr \<Rightarrow> fetch_outcome \<Rightarrow> bool" where
  "outcome_ok n (Resolves (Some obj)) = arg_ok n obj"
| "outcome_ok n other = True"

text \<open>
  What can happen to an instance: a call of a public method, the unsubscribe function
  of some listener id, a timer firing, or the caller creating an object of its own.
  The caller does not write into an object after handing it to the instance, nor into
  one the instance handed out.
\<close>

datatype operation =
    SetConfig key ConfigValue
  | DeleteConfig key
  | SetEnvironmentConfig jsobject bool
  | SetBackendConfig jsobject bool
  | SetUserConfig jsobject bool
  | Subscribe subscribe_keys callback nat
  | Unsubscribe listener_id
  | StartBackendAutoUpdate fetch_outcome
  | StopBackendAutoUpdate
  | TimerFires timer fetch_outcome
  | NewObject IConfigurationObject

fun perform :: "state \<Rightarrow> operation \<Rightarrow> error + state" where
  "perform s (SetConfig k v) = (case setConfig s k v of Inl e \<Rightarrow> Inl e | Inr (b, s') \<Rightarrow> Inr s')"
| "perform s (DeleteConfig k) = deleteConfig s k"
| "perform s (SetEnvironmentConfig conf override) = setEnvironmentConfig s conf override"
| "perform s (SetBackendConfig conf override) = setBackendConfig s conf override"
| "perform s (SetUserConfig conf override) = setUserConfig s conf override"
| "perform s (Subscribe ks cb rnd) = Inr (snd (subscribe s ks cb rnd))"
| "perform s (Unsubscribe i) = Inr (unsubscribe i s)"
| "perform s (StartBackendAutoUpdate r) =
     (case startBackendAutoUpdate s r of Inl e \<Rightarrow> Inl e | Inr (b, s') \<Rightarrow> Inr s')"
| "perform s StopBackendAutoUpdate = Inr (stopBackendAutoUpdate s)"
| "perform s (TimerFires t r) = Inr (timer_fires s t r)"
| "perform s (NewObject c) = Inr (snd (alloc c s))"

fun operation_ok :: "addr \<Rightarrow> operation \<Rightarrow> bool" where
  "operation_ok n (SetEnvironmentConfig conf override) = arg_ok n conf"
| "operation_ok n (SetBackendConfig conf override) = arg_ok n conf"
| "operation_ok n (SetUserConfig conf override) = arg_ok n conf"
| "operation_ok n (StartBackendAutoUpdate r) = outcome_ok n r"
| "operation_ok n (TimerFires t r) = outcome_ok n r"
| "operation_ok n other = True"

inductive reachable :: "state \<Rightarrow> bool" where
  constructed:
    "jsarg_ok (rt_nextAddr rt) d \<Longrightarrow> Configuration_new None d opts rt = Inr (s, i) \<Longrightarrow> reachable s"
| constructed_again:
    "reachable e \<Longrightarrow> jsarg_ok (rt_nextAddr rt) d
     \<Longrightarrow> Configuration_new (Some e) d opts rt = Inr (s, i) \<Longrightarrow> reachable s"
| performed:
    "reachable s \<Longrightarrow> operation_ok (nextAddr s) op \<Longrightarrow> perform s op = Inr s' \<Longrightarrow> reachable s'"


fun level_store :: "state \<Rightarrow> CONFIGLEVEL \<Rightarrow> jsobject" where
  "level_store s DEFAULT = defaultConfig s"
| "level_store s ENVIRONMENT = environmentConfig s"
| "level_store s BACKEND = backendConfig s"
| "level_store s USER = userConfig s"
| "level_store s DYNAMIC = dynamicConfig s"

text \<open>
  Written from the specification: the entry of \<open>k\<close> in the highest-precedence store
  that contains \<open>k\<close>, with that store's level.
\<close>

definition cellFromHighestNonEmptyLevel :: "state \<Rightarrow> key \<Rightarrow> (CONFIGLEVEL \<times> ConfigValue) option" where
  "cellFromHighestNonEmptyLevel s k =
     (case map_of (dynamicConfig s) k of Some v \<Rightarrow> Some (DYNAMIC, v) | None \<Rightarrow>
      case map_of (userConfig s) k of Some v \<Rightarrow> Some (USER, v) | None \<Rightarrow>
      case map_of (backendConfig s) k of Some v \<Rightarrow> Some (BACKEND, v) | None \<Rightarrow>
      case map_of (environmentConfig s) k of Some v \<Rightarrow> Some (ENVIRONMENT, v) | None \<Rightarrow>
      case map_of (defaultConfig s) k of Some v \<Rightarrow> Some (DEFAULT, v) | None \<Rightarrow> None)"

text \<open>The highest-precedence store that holds the object at \<open>a\<close>, under any key.\<close>

definition top_level :: "state \<Rightarrow> addr \<Rightarrow> CONFIGLEVEL option" where
  "top_level s a =
     (if a \<in> refs (dynamicConfig s) then Some DYNAMIC
      else if a \<in> refs (userConfig s) then Some USER
      else if a \<in> refs (backendConfig s) then Some BACKEND
      else if a \<in> refs (environmentConfig s) then Some ENVIRONMENT
      else if a \<in> refs (defaultConfig s) then Some DEFAULT
      else None)"

definition invariant :: "state \<Rightarrow> bool" where
  "invariant s \<longleftrightarrow>
     stores_ok s \<and> config s = Some (merged s) \<and> changedKeysBuffer s = {} \<and>
     (\<forall>a lvl. top_level s a = Some lvl \<longrightarrow> level (heap s a) = lvl) \<and>
     (\<forall>k a. k \<in> set (readOnlyKeys (options s)) \<longrightarrow> map_of (merged s) k = Some (Obj a)
        \<longrightarrow> readonly (heap s a) = Some True)"

section \<open>What a write leaves behind\<close>

text \<open>
  The store has an entry under \<open>k\<close> for the supplied value: the supplied object itself,
  or an object whose \<open>value\<close> field is the supplied value.
\<close>

definition holds_value :: "state \<Rightarrow> jsobject \<Rightarrow> key \<Rightarrow> ConfigValue \<Rightarrow> bool" where
  "holds_value s store k v \<longleftrightarrow>
     (\<exists>a. map_of store k = Some (Obj a) \<and> (v = Obj a \<or> (\<forall>b. v \<noteq> Obj b) \<and> val (heap s a) = v))"


section \<open>Example instances\<close>

definition empty_runtime :: runtime where
  "empty_runtime = \<lparr>rt_heap = (\<lambda>a. \<lparr>val = Undefined, level = DEFAULT, readonly = None\<rparr>),
     rt_nextAddr = 0, rt_timers = {}, rt_nextTimer = 0\<rparr>"

definition no_options :: PartialOptions where
  "no_options = \<lparr>p_singleton = None, p_backendUpdateFn = False, p_backendUpdateIntervalMs = None,
     p_backendUpdateStartImmediate = None, p_readOnlyKeys = None\<rparr>"

text \<open>\<open>new Configuration({ foo: "defaultA", bar: 10 }, { readOnlyKeys: ["foo", "baz"] })\<close>\<close>

definition example_new :: "error + (state \<times> state option)" where
  "example_new = Configuration_new None
     (ArgObject [(''foo'', Prim (Str ''defaultA'')), (''bar'', Prim (Num 10))])
     (no_options\<lparr>p_readOnlyKeys := Some [''foo'', ''baz'']\<rparr>) empty_runtime"

text \<open>The instance a construction returned (the untouched fields if it threw).\<close>

definition instance_of :: "error + (state \<times> state option) \<Rightarrow> state" where
  "instance_of r = (case r of Inr (s, i) \<Rightarrow> s | Inl e \<Rightarrow> initial_fields no_options empty_runtime)"




text \<open>
  \<open>new Configuration({ foo: "defaultA", bar: 10 })\<close>, then \<open>subscribe(["foo"], cb)\<close> with
  callback 42 and random number 7.
\<close>

definition example_plain :: "error + (state \<times> state option)" where
  "example_plain = Configuration_new None
     (ArgObject [(''foo'', Prim (Str ''defaultA'')), (''bar'', Prim (Num 10))])
     no_options empty_runtime"

definition example_subscribed :: state where
  "example_subscribed = snd (subscribe (instance_of example_plain) (KeyArray [''foo'']) 42 7)"

text \<open>
  \<open>setEnvironmentConfig({ foo: "envA" })\<close> on the instance of \<open>example_subscribed\<close>.
\<close>

definition example_env :: state where
  "example_env =
     (case setEnvironmentConfig example_subscribed [(''foo'', Prim (Str ''envA''))] False of
        Inr s \<Rightarrow> s
      | Inl e \<Rightarrow> example_subscribed)"

section \<open>Property lists\<close>

lemma get_prop_update:
  "get_prop (AList.update k v al) k' = (if k' = k then v else get_prop al k')"
  by (simp add: get_prop_def update_conv')

lemma get_prop_in: "distinct (map fst al) \<Longrightarrow> (k, v) \<in> set al \<Longrightarrow> get_prop al k = v"
  by (simp add: get_prop_def)

lemma map_of_fold_update:
  "map_of (fold (\<lambda>k. AList.update k (f k)) ks t) k = (if k \<in> set ks then Some (f k) else map_of t k)"
  by (induction ks arbitrary: t) (auto simp: update_conv')


lemma distinct_fold_update:
  "distinct (map fst t) \<Longrightarrow> distinct (map fst (fold (\<lambda>k. AList.update k (f k)) ks t))"
  by (induction ks arbitrary: t) (auto simp: distinct_update)

lemma update_append_new: "k \<notin> fst ` set xs \<Longrightarrow> AList.update k v xs = xs @ [(k, v)]"
  by (induction xs) auto

lemma fold_update_append:
  "distinct (map fst (xs @ ys)) \<Longrightarrow> (\<And>k v. (k, v) \<in> set ys \<Longrightarrow> f k = v)
   \<Longrightarrow> fold (\<lambda>k. AList.update k (f k)) (map fst ys) xs = xs @ ys"
proof (induction ys arbitrary: xs)
  case Nil
  then show ?case by simp
next
  case (Cons p ys)
  obtain k v where p: "p = (k, v)" by (cases p)
  have new: "k \<notin> fst ` set xs" using Cons.prems(1) p by auto
  have fk: "f k = v" using Cons.prems(2) p by simp
  have d: "distinct (map fst ((xs @ [(k, v)]) @ ys))" using Cons.prems(1) p by auto
  have "fold (\<lambda>k. AList.update k (f k)) (map fst ys) (xs @ [(k, v)]) = (xs @ [(k, v)]) @ ys"
    using d Cons.prems(2) by (intro Cons.IH) auto
  then show ?case using p new fk by (simp add: update_append_new)
qed

lemma map_of_spread:
  "map_of (spread t src) k = (case map_of src k of Some v \<Rightarrow> Some v | None \<Rightarrow> map_of t k)"
proof (cases "map_of src k")
  case None
  then have "k \<notin> set (map fst src)" by (simp add: map_of_eq_None_iff)
  then show ?thesis using None by (simp add: spread_def map_of_fold_update)
next
  case (Some v)
  then have "k \<in> set (map fst src)" by (metis map_of_eq_None_iff option.distinct(1) set_map)
  then show ?thesis using Some by (simp add: spread_def map_of_fold_update get_prop_def)
qed


lemma distinct_spread: "distinct (map fst t) \<Longrightarrow> distinct (map fst (spread t src))"
  by (simp add: spread_def distinct_fold_update)

lemma spread_Nil: "distinct (map fst src) \<Longrightarrow> spread [] src = src"
  unfolding spread_def using fold_update_append [of "[]" src "get_prop src"]
  by (simp add: get_prop_in)

lemma store_ok_mono: "store_ok n obj \<Longrightarrow> n \<le> m \<Longrightarrow> store_ok m obj"
  by (fastforce simp: store_ok_def)

lemma store_ok_Nil: "store_ok n []"
  by (simp add: store_ok_def)

lemma set_update_subset: "set (AList.update k v al) \<subseteq> insert (k, v) (set al)"
  by (induction al) auto

lemma store_ok_update: "store_ok n obj \<Longrightarrow> a < n \<Longrightarrow> store_ok n (AList.update k (Obj a) obj)"
  unfolding store_ok_def using set_update_subset [of k "Obj a" obj]
  by (auto simp: distinct_update)

lemma set_delete_subset: "set (AList.delete k al) \<subseteq> set al"
  by (induction al) auto

lemma store_ok_delete: "store_ok n obj \<Longrightarrow> store_ok n (AList.delete k obj)"
  unfolding store_ok_def using set_delete_subset [of k obj]
  by (auto simp: distinct_delete)

lemma store_ok_map_of: "store_ok n obj \<Longrightarrow> map_of obj k = Some v \<Longrightarrow> \<exists>a<n. v = Obj a"
  by (auto simp: store_ok_def dest!: map_of_SomeD)

lemma store_okI:
  "distinct (map fst obj) \<Longrightarrow> (\<And>k v. map_of obj k = Some v \<Longrightarrow> \<exists>a<n. v = Obj a) \<Longrightarrow> store_ok n obj"
  by (auto simp: store_ok_def)

lemma store_ok_spread: "store_ok n t \<Longrightarrow> store_ok n src \<Longrightarrow> store_ok n (spread t src)"
  apply (rule store_okI)
   apply (simp add: distinct_spread store_ok_def)
  apply (auto simp: map_of_spread split: option.splits dest: store_ok_map_of)
  done

lemma refs_map_of: "distinct (map fst obj) \<Longrightarrow> a \<in> refs obj \<longleftrightarrow> (\<exists>k. map_of obj k = Some (Obj a))"
  by (auto simp: refs_def)

lemma heap_only_refl: "heap_only s s"
  by (simp add: heap_only_def)

lemma heap_only_trans: "heap_only s s1 \<Longrightarrow> heap_only s1 s2 \<Longrightarrow> heap_only s s2"
proof -
  assume a: "heap_only s s1" and b: "heap_only s1 s2"
  have "s2 = s1\<lparr>heap := heap s2, nextAddr := nextAddr s2\<rparr>" using b by (simp add: heap_only_def)
  also have "s1 = s\<lparr>heap := heap s1, nextAddr := nextAddr s1\<rparr>" using a by (simp add: heap_only_def)
  finally show ?thesis by (simp add: heap_only_def)
qed

lemma heap_only_fields:
  assumes "heap_only s s'"
  shows "options s' = options s" "defaultConfig s' = defaultConfig s"
    "environmentConfig s' = environmentConfig s" "backendConfig s' = backendConfig s"
    "userConfig s' = userConfig s" "dynamicConfig s' = dynamicConfig s"
    "changedKeysBuffer s' = changedKeysBuffer s" "config s' = config s"
    "listeners s' = listeners s" "backendUpdateTimeout s' = backendUpdateTimeout s"
    "timers s' = timers s" "nextTimer s' = nextTimer s" "calls s' = calls s"
proof -
  have e: "s' = s\<lparr>heap := heap s', nextAddr := nextAddr s'\<rparr>"
    using assms by (simp add: heap_only_def)
  show "options s' = options s" by (subst e) simp
  show "defaultConfig s' = defaultConfig s" by (subst e) simp
  show "environmentConfig s' = environmentConfig s" by (subst e) simp
  show "backendConfig s' = backendConfig s" by (subst e) simp
  show "userConfig s' = userConfig s" by (subst e) simp
  show "dynamicConfig s' = dynamicConfig s" by (subst e) simp
  show "changedKeysBuffer s' = changedKeysBuffer s" by (subst e) simp
  show "config s' = config s" by (subst e) simp
  show "listeners s' = listeners s" by (subst e) simp
  show "backendUpdateTimeout s' = backendUpdateTimeout s" by (subst e) simp
  show "timers s' = timers s" by (subst e) simp
  show "nextTimer s' = nextTimer s" by (subst e) simp
  show "calls s' = calls s" by (subst e) simp
qed

lemma bco_step_frame:
  "buildConfigurationObjects_step conf lvl k (built, s) = (built', s')
   \<Longrightarrow> heap_only s s' \<and> nextAddr s \<le> nextAddr s'"
  by (auto simp: buildConfigurationObjects_step_def set_level_def alloc_def heap_only_def
      split: ConfigValue.splits)

lemma bco_fold_frame:
  "fold (buildConfigurationObjects_step conf lvl) ks (built, s) = (built', s')
   \<Longrightarrow> heap_only s s' \<and> nextAddr s \<le> nextAddr s'"
proof (induction ks arbitrary: built s)
  case Nil
  then show ?case by (simp add: heap_only_refl)
next
  case (Cons k ks)
  obtain b1 s1 where st: "buildConfigurationObjects_step conf lvl k (built, s) = (b1, s1)"
    by (cases "buildConfigurationObjects_step conf lvl k (built, s)")
  from Cons.prems st have "fold (buildConfigurationObjects_step conf lvl) ks (b1, s1) = (built', s')"
    by simp
  from Cons.IH [OF this] bco_step_frame [OF st]
  show ?case by (auto intro: heap_only_trans)
qed

lemma bco_step_heap_old:
  "buildConfigurationObjects_step conf lvl k (built, s) = (built', s') \<Longrightarrow> a < nextAddr s
   \<Longrightarrow> val (heap s' a) = val (heap s a) \<and> readonly (heap s' a) = readonly (heap s a)
       \<and> (get_prop conf k \<noteq> Obj a \<longrightarrow> heap s' a = heap s a)"
  by (auto simp: buildConfigurationObjects_step_def set_level_def alloc_def
      split: ConfigValue.splits)

lemma bco_fold_heap_old:
  "fold (buildConfigurationObjects_step conf lvl) ks (built, s) = (built', s') \<Longrightarrow> a < nextAddr s
   \<Longrightarrow> val (heap s' a) = val (heap s a) \<and> readonly (heap s' a) = readonly (heap s a)
       \<and> ((\<forall>k\<in>set ks. get_prop conf k \<noteq> Obj a) \<longrightarrow> heap s' a = heap s a)"
proof (induction ks arbitrary: built s)
  case Nil
  then show ?case by simp
next
  case (Cons k ks)
  obtain b1 s1 where st: "buildConfigurationObjects_step conf lvl k (built, s) = (b1, s1)"
    by (cases "buildConfigurationObjects_step conf lvl k (built, s)")
  from Cons.prems st have f: "fold (buildConfigurationObjects_step conf lvl) ks (b1, s1) = (built', s')"
    by simp
  have lt: "a < nextAddr s1" using bco_step_frame [OF st] Cons.prems(2) by simp
  from Cons.IH [OF f lt] bco_step_heap_old [OF st Cons.prems(2)]
  show ?case by auto
qed

lemma bco_step_obj:
  "get_prop conf k = Obj a \<Longrightarrow>
   buildConfigurationObjects_step conf lvl k (built, s) = (AList.update k (Obj a) built, set_level a lvl s)"
  by (simp add: buildConfigurationObjects_step_def)

lemma bco_step_new:
  "\<forall>b. get_prop conf k \<noteq> Obj b \<Longrightarrow>
   buildConfigurationObjects_step conf lvl k (built, s) =
     (AList.update k (Obj (nextAddr s)) built,
      s\<lparr>heap := (heap s)(nextAddr s := \<lparr>val = get_prop conf k, level = lvl,
                  readonly = Some (k \<in> set (readOnlyKeys (options s)))\<rparr>),
        nextAddr := Suc (nextAddr s)\<rparr>)"
  by (cases "get_prop conf k") (simp_all add: buildConfigurationObjects_step_def alloc_def)

lemma bco_step_update:
  "buildConfigurationObjects_step conf lvl k (built, s) = (built', s')
   \<Longrightarrow> \<exists>a. built' = AList.update k (Obj a) built
          \<and> (get_prop conf k = Obj a \<or> (\<forall>b. get_prop conf k \<noteq> Obj b) \<and> a = nextAddr s \<and> a < nextAddr s'
               \<and> val (heap s' a) = get_prop conf k
               \<and> readonly (heap s' a) = Some (k \<in> set (readOnlyKeys (options s))))"
proof (cases "\<exists>a. get_prop conf k = Obj a")
  case True
  then obtain a where a: "get_prop conf k = Obj a" by blast
  assume "buildConfigurationObjects_step conf lvl k (built, s) = (built', s')"
  with bco_step_obj [OF a, of lvl built s] show ?thesis using a by auto
next
  case False
  then have n: "\<forall>b. get_prop conf k \<noteq> Obj b" by simp
  assume "buildConfigurationObjects_step conf lvl k (built, s) = (built', s')"
  with bco_step_new [OF n, of lvl built s] show ?thesis using n by auto
qed

lemma bco_fold_keys:
  "fold (buildConfigurationObjects_step conf lvl) ks (built, s) = (built', s')
   \<Longrightarrow> fst ` set built' = fst ` set built \<union> set ks
       \<and> (distinct (map fst built) \<longrightarrow> distinct (map fst built'))
       \<and> (\<forall>k. k \<notin> set ks \<longrightarrow> map_of built' k = map_of built k)"
proof (induction ks arbitrary: built s)
  case Nil
  then show ?case by simp
next
  case (Cons k ks)
  obtain b1 s1 where st: "buildConfigurationObjects_step conf lvl k (built, s) = (b1, s1)"
    by (cases "buildConfigurationObjects_step conf lvl k (built, s)")
  from Cons.prems st have f: "fold (buildConfigurationObjects_step conf lvl) ks (b1, s1) = (built', s')"
    by simp
  from bco_step_update [OF st] obtain a where b1: "b1 = AList.update k (Obj a) built" by blast
  from Cons.IH [OF f] show ?case
    by (auto simp: b1 dom_update distinct_update update_conv')
qed

lemma bco_fold_value:
  assumes "fold (buildConfigurationObjects_step conf lvl) ks (built, s) = (built', s')"
    and "k \<in> set ks"
  shows "\<exists>a. map_of built' k = Some (Obj a)
          \<and> (get_prop conf k = Obj a \<or> (\<forall>b. get_prop conf k \<noteq> Obj b) \<and> nextAddr s \<le> a \<and> a < nextAddr s'
               \<and> val (heap s' a) = get_prop conf k
               \<and> readonly (heap s' a) = Some (k \<in> set (readOnlyKeys (options s))))"
  using assms
proof (induction ks arbitrary: built s)
  case Nil
  then show ?case by simp
next
  case (Cons k0 ks)
  obtain b1 s1 where st: "buildConfigurationObjects_step conf lvl k0 (built, s) = (b1, s1)"
    by (cases "buildConfigurationObjects_step conf lvl k0 (built, s)")
  from Cons.prems st have f: "fold (buildConfigurationObjects_step conf lvl) ks (b1, s1) = (built', s')"
    by simp
  have fr: "heap_only s s1" "nextAddr s \<le> nextAddr s1" using bco_step_frame [OF st] by auto
  have opts: "options s1 = options s" using heap_only_fields(1) [OF fr(1)] .
  show ?case
  proof (cases "k \<in> set ks")
    case True
    from Cons.IH [OF f True] fr(2) opts show ?thesis by auto
  next
    case False
    then have k: "k = k0" using Cons.prems(2) by simp
    from bco_step_update [OF st] obtain a where
      b1: "b1 = AList.update k0 (Obj a) built" and
      a: "get_prop conf k0 = Obj a \<or> (\<forall>b. get_prop conf k0 \<noteq> Obj b) \<and> a = nextAddr s \<and> a < nextAddr s1
               \<and> val (heap s1 a) = get_prop conf k0
               \<and> readonly (heap s1 a) = Some (k0 \<in> set (readOnlyKeys (options s)))"
      by blast
    have m: "map_of built' k = Some (Obj a)"
      using bco_fold_keys [OF f] False by (simp add: b1 k update_conv')
    from a show ?thesis
    proof
      assume "get_prop conf k0 = Obj a"
      with m k show ?thesis by auto
    next
      assume n: "(\<forall>b. get_prop conf k0 \<noteq> Obj b) \<and> a = nextAddr s \<and> a < nextAddr s1
               \<and> val (heap s1 a) = get_prop conf k0
               \<and> readonly (heap s1 a) = Some (k0 \<in> set (readOnlyKeys (options s)))"
      then have lt: "a < nextAddr s1" by simp
      from bco_fold_heap_old [OF f lt] bco_fold_frame [OF f] n m k
      show ?thesis by auto
    qed
  qed
qed

lemma bco_fold_store_ok:
  assumes "fold (buildConfigurationObjects_step conf lvl) ks (built, s) = (built', s')"
    and "store_ok (nextAddr s) built"
    and "\<forall>k\<in>set ks. \<forall>a. get_prop conf k = Obj a \<longrightarrow> a < nextAddr s"
  shows "store_ok (nextAddr s') built'"
proof (rule store_okI)
  show "distinct (map fst built')" using bco_fold_keys [OF assms(1)] assms(2) by (simp add: store_ok_def)
next
  fix k v assume m: "map_of built' k = Some v"
  have le: "nextAddr s \<le> nextAddr s'" using bco_fold_frame [OF assms(1)] by simp
  show "\<exists>a<nextAddr s'. v = Obj a"
  proof (cases "k \<in> set ks")
    case True
    from bco_fold_value [OF assms(1) True] m assms(3) True le show ?thesis by fastforce
  next
    case False
    then have "map_of built k = Some v" using bco_fold_keys [OF assms(1)] m by simp
    from store_ok_map_of [OF assms(2) this] le show ?thesis by fastforce
  qed
qed

lemma relevel_upd:
  "relevel A lvl (h(a := (h a)\<lparr>level := lvl\<rparr>)) = relevel (insert a A) lvl h"
  by (auto simp: relevel_def fun_eq_iff)

lemma relevel_empty: "relevel {} lvl h = h"
  by (simp add: relevel_def)

lemma bco_fold_objs:
  "\<forall>k\<in>set ks. \<exists>a. get_prop conf k = Obj a \<Longrightarrow>
   fold (buildConfigurationObjects_step conf lvl) ks (built, s) =
     (fold (\<lambda>k. AList.update k (get_prop conf k)) ks built,
      s\<lparr>heap := relevel {a. \<exists>k\<in>set ks. get_prop conf k = Obj a} lvl (heap s)\<rparr>)"
proof (induction ks arbitrary: built s)
  case Nil
  then show ?case by (simp add: relevel_empty)
next
  case (Cons k ks)
  then obtain a where a: "get_prop conf k = Obj a" by auto
  have rest: "\<forall>k\<in>set ks. \<exists>a. get_prop conf k = Obj a" using Cons.prems by simp
  let ?A = "{b. \<exists>k'\<in>set ks. get_prop conf k' = Obj b}"
  have set_eq: "{b. \<exists>k'\<in>set (k # ks). get_prop conf k' = Obj b} = insert a ?A"
    using a by auto
  have h: "relevel ?A lvl (heap (set_level a lvl s)) = relevel (insert a ?A) lvl (heap s)"
    by (auto simp: relevel_def set_level_def fun_eq_iff)
  have st: "(set_level a lvl s)\<lparr>heap := relevel (insert a ?A) lvl (heap s)\<rparr>
      = s\<lparr>heap := relevel (insert a ?A) lvl (heap s)\<rparr>"
    by (simp add: set_level_def)
  have "fold (buildConfigurationObjects_step conf lvl) (k # ks) (built, s)
      = fold (buildConfigurationObjects_step conf lvl) ks (AList.update k (Obj a) built, set_level a lvl s)"
    by (simp add: bco_step_obj [OF a])
  also have "\<dots> = (fold (\<lambda>k. AList.update k (get_prop conf k)) ks (AList.update k (Obj a) built),
      (set_level a lvl s)\<lparr>heap := relevel ?A lvl (heap (set_level a lvl s))\<rparr>)"
    by (rule Cons.IH [OF rest])
  also have "\<dots> = (fold (\<lambda>k. AList.update k (get_prop conf k)) (k # ks) built,
      s\<lparr>heap := relevel (insert a ?A) lvl (heap s)\<rparr>)"
    unfolding h st by (simp add: a)
  finally show ?case unfolding set_eq .
qed

lemma bco_store:
  assumes "store_ok n conf"
  shows "buildConfigurationObjects s conf lvl = (conf, s\<lparr>heap := relevel (refs conf) lvl (heap s)\<rparr>)"
proof -
  have d: "distinct (map fst conf)" using assms by (simp add: store_ok_def)
  have objs: "\<forall>k\<in>set (map fst conf). \<exists>a. get_prop conf k = Obj a"
  proof
    fix k assume "k \<in> set (map fst conf)"
    then obtain v where kv: "(k, v) \<in> set conf" by auto
    then obtain a where "v = Obj a" using assms by (auto simp: store_ok_def)
    with get_prop_in [OF d kv] show "\<exists>a. get_prop conf k = Obj a" by simp
  qed
  have r: "{a. \<exists>k\<in>set (map fst conf). get_prop conf k = Obj a} = refs conf"
  proof (rule set_eqI)
    fix a
    show "a \<in> {a. \<exists>k\<in>set (map fst conf). get_prop conf k = Obj a} \<longleftrightarrow> a \<in> refs conf"
    proof
      assume "a \<in> {a. \<exists>k\<in>set (map fst conf). get_prop conf k = Obj a}"
      then obtain k v where kv: "(k, v) \<in> set conf" and g: "get_prop conf k = Obj a" by auto
      from get_prop_in [OF d kv] g have "v = Obj a" by simp
      with kv show "a \<in> refs conf" by (auto simp: refs_def)
    next
      assume "a \<in> refs conf"
      then obtain k where kv: "(k, Obj a) \<in> set conf" by (auto simp: refs_def)
      from get_prop_in [OF d kv] kv show "a \<in> {a. \<exists>k\<in>set (map fst conf). get_prop conf k = Obj a}"
        by force
    qed
  qed
  have f: "fold (\<lambda>k. AList.update k (get_prop conf k)) (map fst conf) [] = conf"
    using spread_Nil [OF d] by (simp add: spread_def)
  show ?thesis
    unfolding buildConfigurationObjects_def bco_fold_objs [OF objs] r f ..
qed

lemma merge_closed:
  assumes "stores_ok s"
  shows "buildConfig_merge s = s\<lparr>heap := levelled s, config := Some (merged s)\<rparr>"
proof -
  note ok = assms [unfolded stores_ok_def]
  have 1: "\<And>t lvl. buildConfigurationObjects t (defaultConfig s) lvl =
      (defaultConfig s, t\<lparr>heap := relevel (refs (defaultConfig s)) lvl (heap t)\<rparr>)"
    using ok by (intro bco_store) blast
  have 2: "\<And>t lvl. buildConfigurationObjects t (environmentConfig s) lvl =
      (environmentConfig s, t\<lparr>heap := relevel (refs (environmentConfig s)) lvl (heap t)\<rparr>)"
    using ok by (intro bco_store) blast
  have 3: "\<And>t lvl. buildConfigurationObjects t (backendConfig s) lvl =
      (backendConfig s, t\<lparr>heap := relevel (refs (backendConfig s)) lvl (heap t)\<rparr>)"
    using ok by (intro bco_store) blast
  have 4: "\<And>t lvl. buildConfigurationObjects t (userConfig s) lvl =
      (userConfig s, t\<lparr>heap := relevel (refs (userConfig s)) lvl (heap t)\<rparr>)"
    using ok by (intro bco_store) blast
  have 5: "\<And>t lvl. buildConfigurationObjects t (dynamicConfig s) lvl =
      (dynamicConfig s, t\<lparr>heap := relevel (refs (dynamicConfig s)) lvl (heap t)\<rparr>)"
    using ok by (intro bco_store) blast
  show ?thesis
    by (simp add: buildConfig_merge_def buildDefaultValues_def 1 2 3 4 5 levelled_def merged_def)
qed

lemma reset_fold:
  "fold (resetReadOnlyFlags_step cfg) ks s =
     s\<lparr>heap := (\<lambda>a. if \<exists>k\<in>set ks. k \<in> set (readOnlyKeys (options s)) \<and> get_prop cfg k = Obj a
                    then (heap s a)\<lparr>readonly := Some True\<rparr> else heap s a)\<rparr>"
proof (induction ks arbitrary: s)
  case Nil
  then show ?case by simp
next
  case (Cons k ks)
  let ?s1 = "resetReadOnlyFlags_step cfg k s"
  have o: "options ?s1 = options s"
    by (simp add: resetReadOnlyFlags_step_def set_readonly_def split: ConfigValue.splits)
  have h: "(\<lambda>a. if \<exists>k'\<in>set ks. k' \<in> set (readOnlyKeys (options s)) \<and> get_prop cfg k' = Obj a
                    then (heap ?s1 a)\<lparr>readonly := Some True\<rparr> else heap ?s1 a)
      = (\<lambda>a. if \<exists>k'\<in>set (k # ks). k' \<in> set (readOnlyKeys (options s)) \<and> get_prop cfg k' = Obj a
                    then (heap s a)\<lparr>readonly := Some True\<rparr> else heap s a)"
    by (auto simp: fun_eq_iff resetReadOnlyFlags_step_def set_readonly_def split: ConfigValue.splits)
  have st: "\<And>f. ?s1\<lparr>heap := f\<rparr> = s\<lparr>heap := f\<rparr>"
    by (simp add: resetReadOnlyFlags_step_def set_readonly_def split: ConfigValue.splits)
  have "fold (resetReadOnlyFlags_step cfg) (k # ks) s = fold (resetReadOnlyFlags_step cfg) ks ?s1"
    by simp
  also have "\<dots> = ?s1\<lparr>heap := (\<lambda>a. if \<exists>k'\<in>set ks. k' \<in> set (readOnlyKeys (options s)) \<and> get_prop cfg k' = Obj a
                    then (heap ?s1 a)\<lparr>readonly := Some True\<rparr> else heap ?s1 a)\<rparr>"
    unfolding Cons.IH o ..
  finally show ?case unfolding h st .
qed

lemma get_prop_Obj_iff:
  "(k \<in> set (map fst cfg) \<and> get_prop cfg k = Obj a) \<longleftrightarrow> map_of cfg k = Some (Obj a)"
  by (auto simp: get_prop_def split: option.splits dest: map_of_SomeD weak_map_of_SomeI
      intro: rev_image_eqI)

lemma reset_closed:
  "config s = Some cfg \<Longrightarrow>
   resetReadOnlyFlags s = Inr (s\<lparr>heap := flagged (readOnlyKeys (options s)) cfg (heap s)\<rparr>)"
proof -
  assume c: "config s = Some cfg"
  have "(\<lambda>a. if \<exists>k\<in>set (map fst cfg). k \<in> set (readOnlyKeys (options s)) \<and> get_prop cfg k = Obj a
                    then (heap s a)\<lparr>readonly := Some True\<rparr> else heap s a)
      = flagged (readOnlyKeys (options s)) cfg (heap s)"
    unfolding flagged_def using get_prop_Obj_iff [of _ cfg] by (intro ext) metis
  then show ?thesis by (simp add: resetReadOnlyFlags_def c reset_fold)
qed

lemma notify_closed:
  "notify cfg l s = s\<lparr>calls := calls s @ notification (heap s) cfg (changedKeysBuffer s) l\<rparr>"
  by (simp add: notify_def notification_def Let_def)

lemma fold_notify:
  "fold (notify cfg) ls s =
     s\<lparr>calls := calls s @ concat (map (notification (heap s) cfg (changedKeysBuffer s)) ls)\<rparr>"
  by (induction ls arbitrary: s) (simp_all add: notify_closed)

lemma trigger_closed:
  "config s = Some cfg \<Longrightarrow>
   triggerListeners s =
     s\<lparr>calls := calls s @ concat (map (notification (heap s) cfg (changedKeysBuffer s)) (listeners s)),
       changedKeysBuffer := {}\<rparr>"
  by (simp add: triggerListeners_def fold_notify)

lemma buildConfig_closed: "stores_ok s \<Longrightarrow> buildConfig s = Inr (rebuilt s)"
  by (simp add: buildConfig_def merge_closed reset_closed trigger_closed rebuilt_def)

section \<open>One rebuild\<close>

lemma rebuilt_fields:
  "options (rebuilt s) = options s" "defaultConfig (rebuilt s) = defaultConfig s"
  "environmentConfig (rebuilt s) = environmentConfig s" "backendConfig (rebuilt s) = backendConfig s"
  "userConfig (rebuilt s) = userConfig s" "dynamicConfig (rebuilt s) = dynamicConfig s"
  "nextAddr (rebuilt s) = nextAddr s" "listeners (rebuilt s) = listeners s"
  "timers (rebuilt s) = timers s" "nextTimer (rebuilt s) = nextTimer s"
  "backendUpdateTimeout (rebuilt s) = backendUpdateTimeout s"
  "config (rebuilt s) = Some (merged s)" "changedKeysBuffer (rebuilt s) = {}"
  "heap (rebuilt s) = flagged (readOnlyKeys (options s)) (merged s) (levelled s)"
  by (simp_all add: rebuilt_def)

lemma merged_rebuilt: "merged (rebuilt s) = merged s"
  by (simp add: merged_def rebuilt_fields)

lemma top_level_rebuilt: "top_level (rebuilt s) a = top_level s a"
  by (simp add: top_level_def rebuilt_fields)

lemma stores_ok_rebuilt: "stores_ok (rebuilt s) = stores_ok s"
  by (simp add: stores_ok_def rebuilt_fields)

lemma flagged_fields:
  "val (flagged ro cfg h a) = val (h a)" "level (flagged ro cfg h a) = level (h a)"
  by (simp_all add: flagged_def)

lemma relevel_fields:
  "val (relevel A lvl h a) = val (h a)" "readonly (relevel A lvl h a) = readonly (h a)"
  "level (relevel A lvl h a) = (if a \<in> A then lvl else level (h a))"
  by (simp_all add: relevel_def)

lemma levelled_fields:
  "val (levelled s a) = val (heap s a)" "readonly (levelled s a) = readonly (heap s a)"
  by (simp_all add: levelled_def relevel_fields)

lemma level_levelled:
  "level (levelled s a) = (case top_level s a of Some lvl \<Rightarrow> lvl | None \<Rightarrow> level (heap s a))"
  by (simp add: levelled_def relevel_fields top_level_def)

lemma val_rebuilt: "val (heap (rebuilt s) a) = val (heap s a)"
  by (simp add: rebuilt_fields flagged_fields levelled_fields)

lemma invariant_rebuilt: "stores_ok s \<Longrightarrow> invariant (rebuilt s)"
  unfolding invariant_def
  by (simp add: stores_ok_rebuilt merged_rebuilt top_level_rebuilt rebuilt_fields
      flagged_fields level_levelled)
     (auto simp: flagged_def)

lemma invariant_cong:
  assumes "options s' = options s" "defaultConfig s' = defaultConfig s"
    "environmentConfig s' = environmentConfig s" "backendConfig s' = backendConfig s"
    "userConfig s' = userConfig s" "dynamicConfig s' = dynamicConfig s"
    "changedKeysBuffer s' = changedKeysBuffer s" "config s' = config s"
    "heap s' = heap s" "nextAddr s' = nextAddr s"
  shows "invariant s' = invariant s"
  by (simp add: invariant_def stores_ok_def merged_def top_level_def assms)

lemma updateChanged_fold:
  "fold (\<lambda>k t.
             (let t1 = t\<lparr>changedKeysBuffer := insert k (changedKeysBuffer t)\<rparr>
              in if oldConf \<noteq> None \<and> \<not> (k \<in> fst ` set newConf)
                 then t1\<lparr>changedKeysBuffer := insert k (changedKeysBuffer t1)\<rparr>
                 else t1)) ks t = t\<lparr>changedKeysBuffer := changedKeysBuffer t \<union> set ks\<rparr>"
  by (induction ks arbitrary: t) (simp_all add: Let_def)

lemma updateChanged_closed:
  "updateChangedKeysBufferWithPartialConfig s newConf oldConf =
     s\<lparr>changedKeysBuffer := changedKeysBuffer s \<union> fst ` set newConf\<rparr>"
  unfolding updateChangedKeysBufferWithPartialConfig_def updateChanged_fold by simp

section \<open>Writes in closed form\<close>

lemma get_prop_ObjD: "get_prop conf k = Obj a \<Longrightarrow> (k, Obj a) \<in> set conf"
  by (auto simp: get_prop_def split: option.splits dest: map_of_SomeD)

lemma arg_ok_get_prop: "arg_ok n conf \<Longrightarrow> get_prop conf k = Obj a \<Longrightarrow> a < n"
  by (auto simp: arg_ok_def dest!: get_prop_ObjD)

lemma arg_ok_mono: "arg_ok n conf \<Longrightarrow> n \<le> m \<Longrightarrow> arg_ok m conf"
  by (fastforce simp: arg_ok_def)

lemma stores_ok_heap_only:
  assumes "stores_ok s" "heap_only s s1" "nextAddr s \<le> nextAddr s1"
  shows "stores_ok s1"
  using assms(1,3) unfolding stores_ok_def heap_only_fields [OF assms(2)]
  by (auto intro: store_ok_mono)

lemma bco_ok:
  assumes "arg_ok (nextAddr s) conf" "buildConfigurationObjects s conf lvl = (built, s1)"
  shows "heap_only s s1" "nextAddr s \<le> nextAddr s1" "store_ok (nextAddr s1) built"
    "fst ` set built = fst ` set conf"
proof -
  have f: "fold (buildConfigurationObjects_step conf lvl) (map fst conf) ([], s) = (built, s1)"
    using assms(2) by (simp add: buildConfigurationObjects_def)
  show "heap_only s s1" "nextAddr s \<le> nextAddr s1" using bco_fold_frame [OF f] by auto
  show "store_ok (nextAddr s1) built"
    using bco_fold_store_ok [OF f store_ok_Nil] arg_ok_get_prop [OF assms(1)] by blast
  show "fst ` set built = fst ` set conf" using bco_fold_keys [OF f] by simp
qed

lemma bco_value:
  assumes "buildConfigurationObjects s conf lvl = (built, s1)" "k \<in> fst ` set conf"
  shows "\<exists>a. map_of built k = Some (Obj a)
          \<and> (get_prop conf k = Obj a \<or> (\<forall>b. get_prop conf k \<noteq> Obj b) \<and> nextAddr s \<le> a \<and> a < nextAddr s1
               \<and> val (heap s1 a) = get_prop conf k
               \<and> readonly (heap s1 a) = Some (k \<in> set (readOnlyKeys (options s))))"
proof -
  have f: "fold (buildConfigurationObjects_step conf lvl) (map fst conf) ([], s) = (built, s1)"
    using assms(1) by (simp add: buildConfigurationObjects_def)
  show ?thesis using bco_fold_value [OF f] assms(2) by simp
qed

lemma bco_absent:
  assumes "buildConfigurationObjects s conf lvl = (built, s1)" "k \<notin> fst ` set conf"
  shows "map_of built k = None"
proof -
  have f: "fold (buildConfigurationObjects_step conf lvl) (map fst conf) ([], s) = (built, s1)"
    using assms(1) by (simp add: buildConfigurationObjects_def)
  show ?thesis using bco_fold_keys [OF f] assms(2) by simp
qed

lemma bco_heap_old:
  assumes "buildConfigurationObjects s conf lvl = (built, s1)" "a < nextAddr s"
  shows "val (heap s1 a) = val (heap s a)"
proof -
  have f: "fold (buildConfigurationObjects_step conf lvl) (map fst conf) ([], s) = (built, s1)"
    using assms(1) by (simp add: buildConfigurationObjects_def)
  show ?thesis using bco_fold_heap_old [OF f assms(2)] by simp
qed

text \<open>The state a level write hands to \<open>buildConfig\<close>, and what comes back.\<close>

lemma setEnvironmentConfig_closed:
  fixes override :: bool
  assumes "stores_ok s" "arg_ok (nextAddr s) conf"
    and "buildConfigurationObjects s conf ENVIRONMENT = (built, s1)"
  defines "w \<equiv> s1\<lparr>environmentConfig := (if override then built else spread (environmentConfig s) built),
                    changedKeysBuffer := changedKeysBuffer s \<union> fst ` set conf\<rparr>"
  shows "stores_ok w" "setEnvironmentConfig s conf override = Inr (rebuilt w)"
proof -
  note b = bco_ok [OF assms(2,3)]
  note f = heap_only_fields [OF b(1)]
  have ok1: "stores_ok s1" using stores_ok_heap_only [OF assms(1) b(1,2)] .
  have d: "distinct (map fst (environmentConfig s))" using assms(1) by (simp add: stores_ok_def store_ok_def)
  have "store_ok (nextAddr s1) (if override then built else spread (environmentConfig s) built)"
    using b(3) ok1 by (auto simp: stores_ok_def f intro: store_ok_spread)
  then show w: "stores_ok w" using ok1 by (simp add: stores_ok_def w_def)
  have "setEnvironmentConfig s conf override = buildConfig w"
    by (simp add: setEnvironmentConfig_def assms(3) updateChanged_closed w_def spread_Nil [OF d] f)
  then show "setEnvironmentConfig s conf override = Inr (rebuilt w)"
    by (simp add: buildConfig_closed [OF w])
qed

lemma setBackendConfig_closed:
  fixes override :: bool
  assumes "stores_ok s" "arg_ok (nextAddr s) conf"
    and "buildConfigurationObjects s conf BACKEND = (built, s1)"
  defines "w \<equiv> s1\<lparr>backendConfig := (if override then built else spread (backendConfig s) built),
                    changedKeysBuffer := changedKeysBuffer s \<union> fst ` set conf\<rparr>"
  shows "stores_ok w" "setBackendConfig s conf override = Inr (rebuilt w)"
proof -
  note b = bco_ok [OF assms(2,3)]
  note f = heap_only_fields [OF b(1)]
  have ok1: "stores_ok s1" using stores_ok_heap_only [OF assms(1) b(1,2)] .
  have d: "distinct (map fst (backendConfig s))" using assms(1) by (simp add: stores_ok_def store_ok_def)
  have "store_ok (nextAddr s1) (if override then built else spread (backendConfig s) built)"
    using b(3) ok1 by (auto simp: stores_ok_def f intro: store_ok_spread)
  then show w: "stores_ok w" using ok1 by (simp add: stores_ok_def w_def)
  have "setBackendConfig s conf override = buildConfig w"
    by (simp add: setBackendConfig_def assms(3) updateChanged_closed w_def spread_Nil [OF d] f)
  then show "setBackendConfig s conf override = Inr (rebuilt w)"
    by (simp add: buildConfig_closed [OF w])
qed

lemma map_of_fold_cond_update:
  "map_of (fold (\<lambda>k acc. if P k then AList.update k (f k) acc else acc) ks t) k =
     (if k \<in> set ks \<and> P k then Some (f k) else map_of t k)"
  by (induction ks arbitrary: t) (auto simp: update_conv')

lemma dom_fold_cond_update:
  "fst ` set (fold (\<lambda>k acc. if P k then AList.update k (f k) acc else acc) ks t) =
     fst ` set t \<union> {k \<in> set ks. P k}"
  by (induction ks arbitrary: t) (auto simp: dom_update)

lemma distinct_fold_cond_update:
  "distinct (map fst t) \<Longrightarrow>
   distinct (map fst (fold (\<lambda>k acc. if P k then AList.update k (f k) acc else acc) ks t))"
  by (induction ks arbitrary: t) (auto simp: distinct_update)

lemma map_of_filteredConfig:
  "map_of (filteredConfig s conf) k =
     (if k \<in> fst ` set conf \<and> k \<notin> set (readOnlyKeys (options s)) then Some (get_prop conf k) else None)"
  by (simp add: filteredConfig_def map_of_fold_cond_update)

lemma dom_filteredConfig:
  "fst ` set (filteredConfig s conf) = fst ` set conf - set (readOnlyKeys (options s))"
  by (auto simp: filteredConfig_def dom_fold_cond_update)

lemma distinct_filteredConfig: "distinct (map fst (filteredConfig s conf))"
  by (simp add: filteredConfig_def distinct_fold_cond_update)

lemma get_prop_filteredConfig:
  "k \<in> fst ` set conf \<Longrightarrow> k \<notin> set (readOnlyKeys (options s))
   \<Longrightarrow> get_prop (filteredConfig s conf) k = get_prop conf k"
  by (simp add: get_prop_def [of "filteredConfig s conf"] map_of_filteredConfig)

lemma arg_ok_filteredConfig:
  assumes "arg_ok n conf"
  shows "arg_ok n (filteredConfig s conf)"
  unfolding arg_ok_def
proof (clarify)
  fix k a assume "(k, Obj a) \<in> set (filteredConfig s conf)"
  then have "map_of (filteredConfig s conf) k = Some (Obj a)"
    using distinct_filteredConfig by simp
  then have "get_prop conf k = Obj a"
    by (simp add: map_of_filteredConfig split: if_splits)
  then show "a < n" using arg_ok_get_prop [OF assms] by simp
qed

lemma setUserConfig_closed:
  fixes override :: bool
  assumes "stores_ok s" "arg_ok (nextAddr s) conf"
    and "buildConfigurationObjects s (filteredConfig s conf) USER = (built, s1)"
  defines "w \<equiv> s1\<lparr>userConfig := (if override then built else spread (userConfig s) built),
                    changedKeysBuffer := changedKeysBuffer s
                       \<union> (fst ` set conf - set (readOnlyKeys (options s)))\<rparr>"
  shows "stores_ok w" "setUserConfig s conf override = Inr (rebuilt w)"
proof -
  note b = bco_ok [OF arg_ok_filteredConfig [OF assms(2)] assms(3)]
  note f = heap_only_fields [OF b(1)]
  have ok1: "stores_ok s1" using stores_ok_heap_only [OF assms(1) b(1,2)] .
  have d: "distinct (map fst (userConfig s))" using assms(1) by (simp add: stores_ok_def store_ok_def)
  have "store_ok (nextAddr s1) (if override then built else spread (userConfig s) built)"
    using b(3) ok1 by (auto simp: stores_ok_def f intro: store_ok_spread)
  then show w: "stores_ok w" using ok1 by (simp add: stores_ok_def w_def)
  have "setUserConfig s conf override = buildConfig w"
    by (simp add: setUserConfig_def assms(3) updateChanged_closed w_def spread_Nil [OF d] f
        dom_filteredConfig Let_def)
  then show "setUserConfig s conf override = Inr (rebuilt w)"
    by (simp add: buildConfig_closed [OF w])
qed

lemma deleteConfig_closed:
  fixes k :: key
  assumes "stores_ok s"
  defines "w \<equiv> s\<lparr>dynamicConfig := AList.delete k (dynamicConfig s),
                   changedKeysBuffer := insert k (changedKeysBuffer s)\<rparr>"
  shows "stores_ok w" "deleteConfig s k = Inr (rebuilt w)"
proof -
  show w: "stores_ok w" using assms(1) by (simp add: stores_ok_def w_def store_ok_delete)
  show "deleteConfig s k = Inr (rebuilt w)"
    using buildConfig_closed [OF w] by (simp add: deleteConfig_def w_def)
qed

lemma setConfig_object_cell:
  "setConfig_object (ObsObject c) v = \<lparr>val = v, level = DYNAMIC, readonly = Some False\<rparr>"
  by (cases c) (simp add: setConfig_object_def Let_def)

lemma setConfig_closed:
  fixes k :: key and v :: ConfigValue
  assumes "stores_ok s" "config s = Some cfg" "truthy (observe (heap s) (get_prop cfg k))"
    and "k \<notin> set (readOnlyKeys (options s))"
  defines "w \<equiv> s\<lparr>heap := (heap s)(nextAddr s := setConfig_object (observe (heap s) (get_prop cfg k)) v),
                   nextAddr := Suc (nextAddr s),
                   dynamicConfig := AList.update k (Obj (nextAddr s)) (dynamicConfig s),
                   changedKeysBuffer := insert k (changedKeysBuffer s)\<rparr>"
  shows "stores_ok w" "setConfig s k v = Inr (True, rebuilt w)"
proof -
  have "stores_ok (s\<lparr>nextAddr := Suc (nextAddr s)\<rparr>)"
    using assms(1) by (auto simp: stores_ok_def intro: store_ok_mono)
  then show w: "stores_ok w"
    by (simp add: stores_ok_def w_def store_ok_update)
  show "setConfig s k v = Inr (True, rebuilt w)"
    using buildConfig_closed [OF w] assms(2,3,4)
    by (simp add: setConfig_def getConfig_def alloc_def w_def)
qed

section \<open>The invariant of reachable states\<close>

lemma merged_ok: "stores_ok s \<Longrightarrow> store_ok (nextAddr s) (merged s)"
  by (simp add: stores_ok_def merged_def store_ok_spread store_ok_Nil)

lemma map_of_merged:
  "map_of (merged s) k = map_option snd (cellFromHighestNonEmptyLevel s k)"
  by (simp add: merged_def map_of_spread cellFromHighestNonEmptyLevel_def split: option.splits)

lemma refs_below: "store_ok n obj \<Longrightarrow> a \<in> refs obj \<Longrightarrow> a < n"
  by (auto simp: store_ok_def refs_def)

lemma top_level_below: "stores_ok s \<Longrightarrow> top_level s a = Some lvl \<Longrightarrow> a < nextAddr s"
  by (auto simp: stores_ok_def top_level_def split: if_splits dest: refs_below)

lemma invariant_alloc:
  assumes "invariant s"
  shows "invariant (snd (alloc c s))"
proof -
  let ?s = "snd (alloc c s)"
  have ok: "stores_ok s" using assms by (simp add: invariant_def)
  have ok': "stores_ok ?s" using ok by (auto simp: stores_ok_def alloc_def intro: store_ok_mono)
  have m: "merged ?s = merged s" by (simp add: merged_def alloc_def)
  have t: "\<And>a. top_level ?s a = top_level s a" by (simp add: top_level_def alloc_def)
  have h: "\<And>a. a < nextAddr s \<Longrightarrow> heap ?s a = heap s a" by (simp add: alloc_def)
  have lv: "\<forall>a lvl. top_level ?s a = Some lvl \<longrightarrow> level (heap ?s a) = lvl"
    using assms top_level_below [OF ok] by (simp add: invariant_def t h)
  have ro: "\<forall>k a. k \<in> set (readOnlyKeys (options ?s)) \<longrightarrow> map_of (merged ?s) k = Some (Obj a)
        \<longrightarrow> readonly (heap ?s a) = Some True"
  proof (intro allI impI)
    fix k a assume k: "k \<in> set (readOnlyKeys (options ?s))" and mk: "map_of (merged ?s) k = Some (Obj a)"
    have lt: "a < nextAddr s" using store_ok_map_of [OF merged_ok [OF ok]] mk m by fastforce
    have k': "k \<in> set (readOnlyKeys (options s))" using k by (simp add: alloc_def)
    have "readonly (heap s a) = Some True"
      using assms k' mk unfolding m invariant_def by blast
    then show "readonly (heap ?s a) = Some True" by (simp add: h [OF lt])
  qed
  have c: "config ?s = Some (merged ?s)" "changedKeysBuffer ?s = {}"
    using assms unfolding m by (simp_all add: invariant_def alloc_def)
  show ?thesis
    unfolding invariant_def using ok' lv ro c by blast
qed

lemma invariant_setTimeout: "invariant (setTimeout s) = invariant s"
  by (rule invariant_cong) (simp_all add: setTimeout_def)

lemma invariant_clearTimeout: "invariant (clearTimeout t s) = invariant s"
  by (rule invariant_cong) (simp_all add: clearTimeout_def)

lemma nextAddr_clearTimeout: "nextAddr (clearTimeout t s) = nextAddr s"
  by (simp add: clearTimeout_def)

lemma start_invariant:
  "invariant s \<Longrightarrow> runBackendAutoUpdate_start s = Inr s' \<Longrightarrow> invariant s' \<and> nextAddr s' = nextAddr s"
  by (auto simp: runBackendAutoUpdate_start_def invariant_clearTimeout nextAddr_clearTimeout
      split: if_splits option.splits)

lemma setBackendConfig_invariant:
  assumes "invariant s" "arg_ok (nextAddr s) conf" "setBackendConfig s conf override = Inr s'"
  shows "invariant s'"
proof -
  obtain built s1 where b: "buildConfigurationObjects s conf BACKEND = (built, s1)"
    by (cases "buildConfigurationObjects s conf BACKEND")
  have ok: "stores_ok s" using assms(1) by (simp add: invariant_def)
  from setBackendConfig_closed [OF ok assms(2) b, of override] assms(3)
  show ?thesis by (auto intro: invariant_rebuilt)
qed

lemma finish_invariant:
  assumes "invariant s" "outcome_ok (nextAddr s) r" "runBackendAutoUpdate_finish s r = Inr s'"
  shows "invariant s'"
proof (cases r)
  case Rejects
  then show ?thesis using assms(3) by (simp add: runBackendAutoUpdate_finish_def)
next
  case (Resolves res)
  show ?thesis
  proof (cases res)
    case None
    then show ?thesis using assms Resolves
      by (auto simp: runBackendAutoUpdate_finish_def invariant_setTimeout)
  next
    case (Some obj)
    show ?thesis
    proof (cases "obj = []")
      case True
      then show ?thesis using assms Resolves Some
        by (auto simp: runBackendAutoUpdate_finish_def invariant_setTimeout)
    next
      case False
      then obtain s1 where s1: "setBackendConfig s obj True = Inr s1" and s': "s' = setTimeout s1"
        using assms(3) Resolves Some
        by (auto simp: runBackendAutoUpdate_finish_def split: sum.splits)
      have "arg_ok (nextAddr s) obj" using assms(2) Resolves Some by simp
      from setBackendConfig_invariant [OF assms(1) this s1] s'
      show ?thesis by (simp add: invariant_setTimeout)
    qed
  qed
qed

lemma setEnvironmentConfig_invariant:
  assumes "invariant s" "arg_ok (nextAddr s) conf" "setEnvironmentConfig s conf override = Inr s'"
  shows "invariant s'"
proof -
  obtain built s1 where b: "buildConfigurationObjects s conf ENVIRONMENT = (built, s1)"
    by (cases "buildConfigurationObjects s conf ENVIRONMENT")
  have ok: "stores_ok s" using assms(1) by (simp add: invariant_def)
  from setEnvironmentConfig_closed [OF ok assms(2) b, of override] assms(3)
  show ?thesis by (auto intro: invariant_rebuilt)
qed

lemma setUserConfig_invariant:
  assumes "invariant s" "arg_ok (nextAddr s) conf" "setUserConfig s conf override = Inr s'"
  shows "invariant s'"
proof -
  obtain built s1 where b: "buildConfigurationObjects s (filteredConfig s conf) USER = (built, s1)"
    by (cases "buildConfigurationObjects s (filteredConfig s conf) USER")
  have ok: "stores_ok s" using assms(1) by (simp add: invariant_def)
  from setUserConfig_closed [OF ok assms(2) b, of override] assms(3)
  show ?thesis by (auto intro: invariant_rebuilt)
qed

lemma deleteConfig_invariant:
  assumes "invariant s" "deleteConfig s k = Inr s'"
  shows "invariant s'"
proof -
  have ok: "stores_ok s" using assms(1) by (simp add: invariant_def)
  from deleteConfig_closed [OF ok, of k] assms(2)
  show ?thesis by (auto intro: invariant_rebuilt)
qed

lemma setConfig_invariant:
  assumes "invariant s" "setConfig s k v = Inr (b, s')"
  shows "invariant s'"
proof -
  have ok: "stores_ok s" and c: "config s = Some (merged s)"
    using assms(1) by (simp_all add: invariant_def)
  show ?thesis
  proof (cases "truthy (observe (heap s) (get_prop (merged s) k)) \<and> k \<notin> set (readOnlyKeys (options s))")
    case True
    from setConfig_closed [OF ok c, of k v] True assms(2)
    show ?thesis by (auto intro: invariant_rebuilt)
  next
    case False
    then have "s' = s" using assms(2) c
      by (auto simp: setConfig_def getConfig_def split: if_splits)
    then show ?thesis using assms(1) by simp
  qed
qed

lemma invariant_listeners: "invariant (s\<lparr>listeners := ls\<rparr>) = invariant s"
  by (rule invariant_cong) simp_all

lemma invariant_stop: "invariant (stopBackendAutoUpdate s) = invariant s"
  by (rule invariant_cong) (simp_all add: stopBackendAutoUpdate_def clearTimeout_def split: option.splits)

lemma run_invariant:
  assumes "invariant s" "outcome_ok (nextAddr s) r" "runBackendAutoUpdate s r = Inr s'"
  shows "invariant s'"
proof -
  from assms(3) obtain s1 where 1: "runBackendAutoUpdate_start s = Inr s1"
    and 2: "runBackendAutoUpdate_finish s1 r = Inr s'"
    by (auto simp: runBackendAutoUpdate_def split: sum.splits)
  from start_invariant [OF assms(1) 1] have "invariant s1" "outcome_ok (nextAddr s1) r"
    using assms(2) by simp_all
  from finish_invariant [OF this 2] show ?thesis .
qed

lemma timer_fires_invariant:
  assumes "invariant s" "outcome_ok (nextAddr s) r"
  shows "invariant (timer_fires s t r)"
proof (cases "t \<in> timers s")
  case False
  then show ?thesis using assms(1) by (simp add: timer_fires_def)
next
  case True
  let ?s0 = "s\<lparr>timers := timers s - {t}\<rparr>"
  have i0: "invariant ?s0" using assms(1) invariant_clearTimeout [of t s] by (simp add: clearTimeout_def)
  have o0: "outcome_ok (nextAddr ?s0) r" using assms(2) by simp
  show ?thesis
  proof (cases "runBackendAutoUpdate_start ?s0")
    case (Inl e)
    then show ?thesis using True i0 by (simp add: timer_fires_def)
  next
    case (Inr s1)
    from start_invariant [OF i0 Inr] o0 have i1: "invariant s1" and o1: "outcome_ok (nextAddr s1) r"
      by simp_all
    show ?thesis
    proof (cases "runBackendAutoUpdate_finish s1 r")
      case (Inl e)
      then show ?thesis using True Inr i1 by (simp add: timer_fires_def)
    next
      case (Inr s2)
      from finish_invariant [OF i1 o1 Inr] show ?thesis
        using True \<open>runBackendAutoUpdate_start ?s0 = Inr s1\<close> Inr by (simp add: timer_fires_def)
    qed
  qed
qed

lemma perform_invariant:
  assumes "invariant s" "operation_ok (nextAddr s) op" "perform s op = Inr s'"
  shows "invariant s'"
proof (cases op)
  case (SetConfig k v)
  then obtain b where "setConfig s k v = Inr (b, s')"
    using assms(3) by (auto split: sum.splits)
  from setConfig_invariant [OF assms(1) this] show ?thesis .
next
  case (DeleteConfig k)
  then show ?thesis using assms deleteConfig_invariant by simp
next
  case (SetEnvironmentConfig conf ov)
  then show ?thesis using assms setEnvironmentConfig_invariant by simp
next
  case (SetBackendConfig conf ov)
  then show ?thesis using assms setBackendConfig_invariant by simp
next
  case (SetUserConfig conf ov)
  then show ?thesis using assms setUserConfig_invariant by simp
next
  case (Subscribe ks cb rnd)
  then show ?thesis using assms by (auto simp: subscribe_def Let_def invariant_listeners)
next
  case (Unsubscribe i)
  then show ?thesis using assms by (auto simp: unsubscribe_def invariant_listeners)
next
  case (StartBackendAutoUpdate r)
  then obtain b where st: "startBackendAutoUpdate s r = Inr (b, s')"
    using assms(3) by (auto split: sum.splits)
  have o: "outcome_ok (nextAddr s) r" using assms(2) StartBackendAutoUpdate by simp
  show ?thesis
  proof (cases "s' = s")
    case True
    then show ?thesis using assms(1) by simp
  next
    case False
    then have "runBackendAutoUpdate s r = Inr s'" using st
      by (auto simp: startBackendAutoUpdate_def split: if_splits sum.splits)
    from run_invariant [OF assms(1) o this] show ?thesis .
  qed
next
  case StopBackendAutoUpdate
  then show ?thesis using assms by (auto simp: invariant_stop)
next
  case (TimerFires t r)
  then show ?thesis using assms timer_fires_invariant by auto
next
  case (NewObject c)
  then show ?thesis using assms invariant_alloc by auto
qed

lemma jsarg_ok_own_properties: "jsarg_ok n d \<Longrightarrow> own_properties d = Inr conf \<Longrightarrow> arg_ok n conf"
proof (cases d)
  case (ArgPrim p)
  assume "own_properties d = Inr conf"
  then show ?thesis using ArgPrim by (cases p) (auto simp: arg_ok_def)
qed auto

lemma stores_ok_initial: "stores_ok (initial_fields opts rt)"
  by (simp add: stores_ok_def initial_fields_def store_ok_Nil)

lemma Configuration_new_closed:
  assumes "jsarg_ok (rt_nextAddr rt) d" "own_properties d = Inr conf"
    and "buildDefaultValues (initial_fields opts rt) conf = (dflt, s1)"
    and "p_singleton opts = Some True \<longrightarrow> inst = None"
  shows "stores_ok (s1\<lparr>defaultConfig := dflt\<rparr>)"
    "Configuration_new inst d opts rt =
       Inr (rebuilt (s1\<lparr>defaultConfig := dflt\<rparr>),
            if singleton (merge_options opts) then Some (rebuilt (s1\<lparr>defaultConfig := dflt\<rparr>)) else inst)"
proof -
  let ?i = "initial_fields opts rt"
  have a: "arg_ok (nextAddr ?i) conf"
    using jsarg_ok_own_properties [OF assms(1,2)] by (simp add: initial_fields_def)
  have b0: "buildConfigurationObjects ?i conf DEFAULT = (dflt, s1)"
    using assms(3) by (simp add: buildDefaultValues_def)
  note b = bco_ok [OF a b0]
  note f = heap_only_fields [OF b(1)]
  have ok1: "stores_ok s1" using stores_ok_heap_only [OF stores_ok_initial b(1,2)] .
  show w: "stores_ok (s1\<lparr>defaultConfig := dflt\<rparr>)"
    using ok1 b(3) by (simp add: stores_ok_def)
  have o: "options s1 = merge_options opts" using f(1) by (simp add: initial_fields_def)
  have t: "backendUpdateTimeout s1 = None" using f(10) by (simp add: initial_fields_def)
  have none: "(if p_singleton opts = Some True then inst else None) = None"
    using assms(4) by simp
  show "Configuration_new inst d opts rt =
       Inr (rebuilt (s1\<lparr>defaultConfig := dflt\<rparr>),
            if singleton (merge_options opts) then Some (rebuilt (s1\<lparr>defaultConfig := dflt\<rparr>)) else inst)"
    unfolding Configuration_new_def none
    by (simp add: assms(2,3) buildConfig_closed [OF w] rebuilt_fields o t
        runBackendAutoUpdate_start_def Let_def)
qed

lemma Configuration_new_invariant:
  assumes "jsarg_ok (rt_nextAddr rt) d" "Configuration_new inst d opts rt = Inr (s, i)"
    and "\<And>e. inst = Some e \<Longrightarrow> invariant e"
  shows "invariant s"
proof (cases "p_singleton opts = Some True \<and> inst \<noteq> None")
  case True
  then obtain e where e: "inst = Some e" by auto
  then have "s = e" using assms(2) True by (simp add: Configuration_new_def)
  then show ?thesis using assms(3) e by simp
next
  case False
  then have n: "p_singleton opts = Some True \<longrightarrow> inst = None" by simp
  then have none: "(if p_singleton opts = Some True then inst else None) = None" by simp
  obtain conf where c: "own_properties d = Inr conf"
    using assms(2) unfolding Configuration_new_def none by (cases "own_properties d") auto
  obtain dflt s1 where b: "buildDefaultValues (initial_fields opts rt) conf = (dflt, s1)"
    by (cases "buildDefaultValues (initial_fields opts rt) conf")
  from Configuration_new_closed [OF assms(1) c b n] assms(2)
  show ?thesis by (auto intro: invariant_rebuilt)
qed

lemma reachable_invariant: "reachable s \<Longrightarrow> invariant s"
proof (induction rule: reachable.induct)
  case (constructed rt d opts s i)
  then show ?case using Configuration_new_invariant [of rt d None opts s i] by simp
next
  case (constructed_again e rt d opts s i)
  then show ?case using Configuration_new_invariant [of rt d "Some e" opts s i] by simp
next
  case (performed s op s')
  then show ?case using perform_invariant by blast
qed

section \<open>Evaluating the examples\<close>

lemmas run_defs =
  Configuration_new_def buildDefaultValues_def buildConfigurationObjects_def
  buildConfigurationObjects_step_def alloc_def get_prop_def initial_fields_def no_options_def
  empty_runtime_def merge_options_def buildConfig_def buildConfig_merge_def spread_def
  resetReadOnlyFlags_def resetReadOnlyFlags_step_def triggerListeners_def set_level_def
  set_readonly_def Let_def

lemma example_new_eval:
  "\<exists>s. example_new = Inr (s, None) \<and> config s = Some [(''foo'', Obj 0), (''bar'', Obj 1)]
     \<and> readOnlyKeys (options s) = [''foo'', ''baz'']"
  by (simp add: example_new_def run_defs)

lemma example_new_reachable:
  "reachable (instance_of example_new) \<and> example_new = Inr (instance_of example_new, None)"
proof -
  obtain s where s: "example_new = Inr (s, None)" using example_new_eval by blast
  have i: "instance_of example_new = s" unfolding instance_of_def s by simp
  have "reachable s"
    by (rule reachable.constructed [of empty_runtime _ _ s None])
       (use s in \<open>simp_all add: example_new_def arg_ok_def empty_runtime_def\<close>)
  then show ?thesis using s i by simp
qed

lemma buildConfig_total: "\<exists>s'. buildConfig s = Inr s'"
  by (simp add: buildConfig_def buildConfig_merge_def resetReadOnlyFlags_def split: prod.splits)



section \<open>The default store is never written\<close>










lemma highest_in_store:
  "cellFromHighestNonEmptyLevel s k = Some (lvl, v) \<Longrightarrow> map_of (level_store s lvl) k = Some v"
  by (auto simp: cellFromHighestNonEmptyLevel_def split: option.splits)

lemma map_of_refs: "map_of obj k = Some (Obj a) \<Longrightarrow> a \<in> refs obj"
  by (auto simp: refs_def dest: map_of_SomeD)

lemma stores_ok_level_store: "stores_ok s \<Longrightarrow> store_ok (nextAddr s) (level_store s lvl)"
  by (cases lvl) (simp_all add: stores_ok_def)


lemmas write_defs =
  setUserConfig_def setEnvironmentConfig_def setBackendConfig_def filteredConfig_def
  updateChangedKeysBufferWithPartialConfig_def setConfig_def deleteConfig_def getConfig_def
  observe_def setConfig_object_def notify_def relevantChanges_def snapshot_def

lemma example_new_fields:
  "defaultConfig (instance_of example_new) = [(''foo'', Obj 0), (''bar'', Obj 1)]
   \<and> environmentConfig (instance_of example_new) = [] \<and> backendConfig (instance_of example_new) = []
   \<and> userConfig (instance_of example_new) = [] \<and> dynamicConfig (instance_of example_new) = []
   \<and> nextAddr (instance_of example_new) = 2
   \<and> readOnlyKeys (options (instance_of example_new)) = [''foo'', ''baz'']
   \<and> listeners (instance_of example_new) = [] \<and> calls (instance_of example_new) = []
   \<and> config (instance_of example_new) = Some [(''foo'', Obj 0), (''bar'', Obj 1)]
   \<and> heap (instance_of example_new) 0 = \<lparr>val = Prim (Str ''defaultA''), level = DEFAULT, readonly = Some True\<rparr>
   \<and> heap (instance_of example_new) 1 = \<lparr>val = Prim (Num 10), level = DEFAULT, readonly = Some False\<rparr>"
  by (simp add: instance_of_def example_new_def run_defs)


lemma written_after_rebuild:
  assumes b: "buildConfigurationObjects s conf lvl = (built, s1)"
    and k: "k \<in> fst ` set conf"
    and h: "\<And>a. val (heap w a) = val (heap s1 a)"
  shows "holds_value (rebuilt w) (if override then built else spread old built) k (get_prop conf k)"
proof -
  from bco_value [OF b k] obtain a where m: "map_of built k = Some (Obj a)"
    and v: "get_prop conf k = Obj a \<or> (\<forall>b. get_prop conf k \<noteq> Obj b) \<and> val (heap s1 a) = get_prop conf k"
    by blast
  have "map_of (if override then built else spread old built) k = Some (Obj a)"
    using m by (simp add: map_of_spread)
  moreover have "val (heap (rebuilt w) a) = val (heap s1 a)" by (simp add: val_rebuilt h)
  ultimately show ?thesis using v unfolding holds_value_def by auto
qed

section \<open>Notifications\<close>

lemma map_of_relevantChanges:
  "map_of (relevantChanges cfg buf ks) k =
     (if k \<in> set ks \<inter> buf then Some (get_prop cfg k) else None)"
  by (simp add: relevantChanges_def map_of_fold_cond_update)

lemma dom_relevantChanges: "fst ` set (relevantChanges cfg buf ks) = set ks \<inter> buf"
  by (auto simp: relevantChanges_def dom_fold_cond_update)

lemma distinct_relevantChanges: "distinct (map fst (relevantChanges cfg buf ks))"
  by (simp add: relevantChanges_def distinct_fold_cond_update)

lemma relevantChanges_Nil_iff: "relevantChanges cfg buf ks = [] \<longleftrightarrow> set ks \<inter> buf = {}"
  using dom_relevantChanges [of cfg buf ks] by (cases "relevantChanges cfg buf ks") auto

lemma map_fst_snapshot: "map fst (snapshot h obj) = map fst obj"
  by (induction obj) (auto simp: snapshot_def)

lemma map_of_snapshot: "map_of (snapshot h obj) k = map_option (observe h) (map_of obj k)"
  by (induction obj) (auto simp: snapshot_def)

lemma snapshot_Nil_iff: "snapshot h obj = [] \<longleftrightarrow> obj = []"
  by (simp add: snapshot_def)

lemma relevantChanges_single_acc:
  "fold (\<lambda>k' rc. if k' \<in> {k} then AList.update k' (get_prop cfg k') rc else rc) ks [(k, get_prop cfg k)]
     = [(k, get_prop cfg k)]"
  by (induction ks) auto

lemma relevantChanges_single:
  "relevantChanges cfg {k} ks = (if k \<in> set ks then [(k, get_prop cfg k)] else [])"
  unfolding relevantChanges_def
proof (induction ks)
  case Nil
  then show ?case by simp
next
  case (Cons a ks)
  show ?case
  proof (cases "a = k")
    case True
    then show ?thesis using relevantChanges_single_acc [of k cfg ks] by simp
  next
    case False
    then show ?thesis using Cons by simp
  qed
qed

text \<open>What a successful \<open>setConfig\<close> leaves under the key.\<close>

lemma setConfig_new_cell:
  fixes k :: key and v :: ConfigValue
  assumes "stores_ok s" "k \<in> fst ` set (merged s)" "k \<notin> set (readOnlyKeys (options s))"
  defines "w \<equiv> s\<lparr>heap := (heap s)(nextAddr s := setConfig_object (observe (heap s) (get_prop (merged s) k)) v),
                   nextAddr := Suc (nextAddr s),
                   dynamicConfig := AList.update k (Obj (nextAddr s)) (dynamicConfig s),
                   changedKeysBuffer := insert k (changedKeysBuffer s)\<rparr>"
  shows "truthy (observe (heap s) (get_prop (merged s) k))"
    "get_prop (merged w) k = Obj (nextAddr s)"
    "heap (rebuilt w) (nextAddr s) = \<lparr>val = v, level = DYNAMIC, readonly = Some False\<rparr>"
proof -
  let ?n = "nextAddr s"
  obtain x where x: "map_of (merged s) k = Some x" using assms(2)
    by (metis domD dom_map_of_conv_image_fst)
  from store_ok_map_of [OF merged_ok [OF assms(1)] x] obtain a where a: "x = Obj a" by blast
  have g: "get_prop (merged s) k = Obj a" using x a by (simp add: get_prop_def)
  show "truthy (observe (heap s) (get_prop (merged s) k))" by (simp add: g observe_def)
  have cell: "heap w ?n = \<lparr>val = v, level = DYNAMIC, readonly = Some False\<rparr>"
    by (simp add: w_def g observe_def setConfig_object_cell)
  have mk: "map_of (merged w) k = Some (Obj ?n)"
    by (simp add: map_of_merged cellFromHighestNonEmptyLevel_def w_def update_conv')
  show "get_prop (merged w) k = Obj ?n" using mk by (simp add: get_prop_def)
  have dyn: "?n \<in> refs (dynamicConfig w)"
    by (rule map_of_refs [of _ k]) (simp add: w_def update_conv')
  have top: "top_level w ?n = Some DYNAMIC" using dyn by (simp add: top_level_def)
  have old: "\<And>lvl k'. map_of (level_store s lvl) k' \<noteq> Some (Obj ?n)"
    using store_ok_map_of [OF stores_ok_level_store [OF assms(1)]] by fastforce
  have only: "k' = k" if "map_of (merged w) k' = Some (Obj ?n)" for k'
  proof (rule ccontr)
    assume ne: "k' \<noteq> k"
    from that obtain lvl where "cellFromHighestNonEmptyLevel w k' = Some (lvl, Obj ?n)"
      by (auto simp: map_of_merged)
    from highest_in_store [OF this] have "map_of (level_store w lvl) k' = Some (Obj ?n)" .
    then have "map_of (level_store s lvl) k' = Some (Obj ?n)"
      using ne by (cases lvl) (simp_all add: w_def update_conv')
    then show False using old by blast
  qed
  have nf: "\<not> (\<exists>k'\<in>set (readOnlyKeys (options w)). map_of (merged w) k' = Some (Obj ?n))"
    using only assms(3) by (auto simp: w_def)
  have "heap (rebuilt w) ?n = levelled w ?n"
    using nf by (simp add: rebuilt_fields flagged_def)
  moreover have "levelled w ?n = \<lparr>val = v, level = DYNAMIC, readonly = Some False\<rparr>"
    using cell top by (intro IConfigurationObject.equality)
      (simp_all add: levelled_fields level_levelled)
  ultimately show "heap (rebuilt w) ?n = \<lparr>val = v, level = DYNAMIC, readonly = Some False\<rparr>"
    by simp
qed

lemma example_subscribed_eval:
  "reachable example_subscribed
   \<and> config example_subscribed = Some [(''foo'', Obj 0), (''bar'', Obj 1)]
   \<and> readOnlyKeys (options example_subscribed) = []
   \<and> dynamicConfig example_subscribed = []
   \<and> calls example_subscribed = []
   \<and> listeners example_subscribed = [\<lparr>l_id = (0, 7), l_keys = [''foo''], l_callback = 42\<rparr>]"
proof -
  let ?i = "instance_of example_plain"
  have e: "example_plain = Inr (?i, None)"
    by (simp add: instance_of_def example_plain_def run_defs)
  have r: "reachable ?i"
    by (rule reachable.constructed [of empty_runtime _ _ ?i None])
       (use e in \<open>simp_all add: example_plain_def arg_ok_def empty_runtime_def\<close>)
  have r': "reachable example_subscribed"
    by (rule reachable.performed [OF r, of "Subscribe (KeyArray [''foo'']) 42 7"])
       (simp_all add: example_subscribed_def)
  have "config ?i = Some [(''foo'', Obj 0), (''bar'', Obj 1)] \<and> readOnlyKeys (options ?i) = []
     \<and> calls ?i = [] \<and> listeners ?i = [] \<and> dynamicConfig ?i = []"
    by (simp add: instance_of_def example_plain_def run_defs)
  then show ?thesis using r' by (simp add: example_subscribed_def subscribe_def Let_def)
qed





section \<open>Listener ids\<close>

lemma unsubscribe_idem: "unsubscribe i (unsubscribe i s) = unsubscribe i s"
  by (simp add: unsubscribe_def)

lemma unsubscribe_distinct:
  assumes "distinct (map l_id (listeners s))" "l \<in> set (listeners s)"
  shows "listeners (unsubscribe (l_id l) s) = remove1 l (listeners s)"
proof -
  have "filter (\<lambda>x. l_id x \<noteq> l_id l) ls = remove1 l ls"
    if "distinct (map l_id ls)" "l \<in> set ls" for ls
    using that
  proof (induction ls)
    case Nil
    then show ?case by simp
  next
    case (Cons x ls)
    show ?case
    proof (cases "x = l")
      case True
      then have "\<forall>y\<in>set ls. l_id y \<noteq> l_id l" using Cons.prems(1) by (auto simp: image_iff)
      then have "filter (\<lambda>x. l_id x \<noteq> l_id l) ls = ls" by (simp add: filter_id_conv)
      then show ?thesis using True by simp
    next
      case False
      then have "l \<in> set ls" using Cons.prems(2) by simp
      moreover have "l_id x \<noteq> l_id l" using Cons.prems(1) \<open>l \<in> set ls\<close> by (auto simp: image_iff)
      ultimately show ?thesis using Cons False by simp
    qed
  qed
  from this [OF assms] show ?thesis by (simp add: unsubscribe_def)
qed

lemma example_env_eval:
  "reachable example_env
   \<and> environmentConfig example_env = [(''foo'', Obj 2)]
   \<and> nextAddr example_env = 3
   \<and> getValue example_env ''foo'' = Prim (Str ''envA'')
   \<and> listeners example_env = [\<lparr>l_id = (0, 7), l_keys = [''foo''], l_callback = 42\<rparr>]"
proof -
  have e: "setEnvironmentConfig example_subscribed [(''foo'', Prim (Str ''envA''))] False = Inr example_env
     \<and> environmentConfig example_env = [(''foo'', Obj 2)]
     \<and> nextAddr example_env = 3
     \<and> getValue example_env ''foo'' = Prim (Str ''envA'')
     \<and> listeners example_env = [\<lparr>l_id = (0, 7), l_keys = [''foo''], l_callback = 42\<rparr>]"
    by (simp add: example_env_def example_subscribed_def subscribe_def instance_of_def
        example_plain_def run_defs write_defs getValue_def)
  have "reachable example_env"
    by (rule reachable.performed [of example_subscribed
          "SetEnvironmentConfig [(''foo'', Prim (Str ''envA''))] False"])
       (use example_subscribed_eval e in \<open>simp_all add: arg_ok_def\<close>)
  then show ?thesis using e by simp
qed

section \<open>Precedence of the levels\<close>




section \<open>A failing fetch in the refresh loop\<close>




section \<open>Read-only keys and \<open>setConfig\<close>\<close>




section \<open>Read-only keys and the level writes\<close>

text \<open>
  Claim C4. \<open>setUserConfig\<close> raises no error and drops the read-only keys of its
  argument before it writes: a read-only key keeps the user entry it had (none after an
  override), and every other supplied key gets an entry for the supplied value.
  \<open>setEnvironmentConfig\<close> and \<open>setBackendConfig\<close> drop nothing: every supplied key,
  read-only or not, gets an entry for the supplied value in their store.
\<close>

theorem C4_readonly_filtering:
  assumes "reachable s" "arg_ok (nextAddr s) conf"
  shows "(\<exists>s'. setUserConfig s conf override = Inr s'
            \<and> (\<forall>k \<in> set (readOnlyKeys (options s)).
                  map_of (userConfig s') k = (if override then None else map_of (userConfig s) k))
            \<and> (\<forall>k \<in> fst ` set conf - set (readOnlyKeys (options s)).
                  holds_value s' (userConfig s') k (get_prop conf k)))
    \<and> (\<exists>s'. setEnvironmentConfig s conf override = Inr s'
            \<and> (\<forall>k \<in> fst ` set conf. holds_value s' (environmentConfig s') k (get_prop conf k)))
    \<and> (\<exists>s'. setBackendConfig s conf override = Inr s'
            \<and> (\<forall>k \<in> fst ` set conf. holds_value s' (backendConfig s') k (get_prop conf k)))"
proof -
  have ok: "stores_ok s" using reachable_invariant [OF assms(1)] by (simp add: invariant_def)
  have user: "\<exists>s'. setUserConfig s conf override = Inr s'
            \<and> (\<forall>k \<in> set (readOnlyKeys (options s)).
                  map_of (userConfig s') k = (if override then None else map_of (userConfig s) k))
            \<and> (\<forall>k \<in> fst ` set conf - set (readOnlyKeys (options s)).
                  holds_value s' (userConfig s') k (get_prop conf k))"
  proof -
    let ?f = "filteredConfig s conf"
    obtain built s1 where b: "buildConfigurationObjects s ?f USER = (built, s1)"
      by (cases "buildConfigurationObjects s ?f USER")
    let ?w = "s1\<lparr>userConfig := (if override then built else spread (userConfig s) built),
                    changedKeysBuffer := changedKeysBuffer s
                       \<union> (fst ` set conf - set (readOnlyKeys (options s)))\<rparr>"
    have r: "setUserConfig s conf override = Inr (rebuilt ?w)"
      using setUserConfig_closed(2) [OF ok assms(2) b] .
    have u: "userConfig (rebuilt ?w) = (if override then built else spread (userConfig s) built)"
      by (simp add: rebuilt_fields)
    have ro: "map_of (userConfig (rebuilt ?w)) k = (if override then None else map_of (userConfig s) k)"
      if "k \<in> set (readOnlyKeys (options s))" for k
    proof -
      have "k \<notin> fst ` set ?f" using that by (simp add: dom_filteredConfig)
      from bco_absent [OF b this] show ?thesis unfolding u by (simp add: map_of_spread)
    qed
    have wr: "holds_value (rebuilt ?w) (userConfig (rebuilt ?w)) k (get_prop conf k)"
      if "k \<in> fst ` set conf - set (readOnlyKeys (options s))" for k
    proof -
      have kf: "k \<in> fst ` set ?f" using that by (simp add: dom_filteredConfig)
      have g: "get_prop ?f k = get_prop conf k" using that by (simp add: get_prop_filteredConfig)
      have "holds_value (rebuilt ?w) (if override then built else spread (userConfig s) built) k (get_prop ?f k)"
        by (rule written_after_rebuild [OF b kf]) simp
      then show ?thesis unfolding u g .
    qed
    show ?thesis using r ro wr by blast
  qed
  have env: "\<exists>s'. setEnvironmentConfig s conf override = Inr s'
            \<and> (\<forall>k \<in> fst ` set conf. holds_value s' (environmentConfig s') k (get_prop conf k))"
  proof -
    obtain built s1 where b: "buildConfigurationObjects s conf ENVIRONMENT = (built, s1)"
      by (cases "buildConfigurationObjects s conf ENVIRONMENT")
    let ?w = "s1\<lparr>environmentConfig := (if override then built else spread (environmentConfig s) built),
                    changedKeysBuffer := changedKeysBuffer s \<union> fst ` set conf\<rparr>"
    have r: "setEnvironmentConfig s conf override = Inr (rebuilt ?w)"
      using setEnvironmentConfig_closed(2) [OF ok assms(2) b] .
    have u: "environmentConfig (rebuilt ?w) = (if override then built else spread (environmentConfig s) built)"
      by (simp add: rebuilt_fields)
    have wr: "holds_value (rebuilt ?w) (environmentConfig (rebuilt ?w)) k (get_prop conf k)"
      if "k \<in> fst ` set conf" for k
      unfolding u by (rule written_after_rebuild [OF b that]) simp
    show ?thesis using r wr by blast
  qed
  have bk: "\<exists>s'. setBackendConfig s conf override = Inr s'
            \<and> (\<forall>k \<in> fst ` set conf. holds_value s' (backendConfig s') k (get_prop conf k))"
  proof -
    obtain built s1 where b: "buildConfigurationObjects s conf BACKEND = (built, s1)"
      by (cases "buildConfigurationObjects s conf BACKEND")
    let ?w = "s1\<lparr>backendConfig := (if override then built else spread (backendConfig s) built),
                    changedKeysBuffer := changedKeysBuffer s \<union> fst ` set conf\<rparr>"
    have r: "setBackendConfig s conf override = Inr (rebuilt ?w)"
      using setBackendConfig_closed(2) [OF ok assms(2) b] .
    have u: "backendConfig (rebuilt ?w) = (if override then built else spread (backendConfig s) built)"
      by (simp add: rebuilt_fields)
    have wr: "holds_value (rebuilt ?w) (backendConfig (rebuilt ?w)) k (get_prop conf k)"
      if "k \<in> fst ` set conf" for k
      unfolding u by (rule written_after_rebuild [OF b that]) simp
    show ?thesis using r wr by blast
  qed
  show ?thesis using user env bk by blast
qed

theorem C4_readonly_filtering_witness:
  "reachable (instance_of example_new)
   \<and> arg_ok (nextAddr (instance_of example_new))
        [(''foo'', Prim (Str ''userA'')), (''bar'', Prim (Num 30))]
   \<and> (\<exists>s'. setUserConfig (instance_of example_new)
              [(''foo'', Prim (Str ''userA'')), (''bar'', Prim (Num 30))] False = Inr s'
          \<and> map_of (userConfig s') ''foo'' = None
          \<and> holds_value s' (userConfig s') ''bar'' (Prim (Num 30)))
   \<and> (\<exists>s'. setEnvironmentConfig (instance_of example_new)
              [(''foo'', Prim (Str ''userA'')), (''bar'', Prim (Num 30))] False = Inr s'
          \<and> holds_value s' (environmentConfig s') ''foo'' (Prim (Str ''userA'')))"
proof -
  let ?s = "instance_of example_new"
  let ?c = "[(''foo'', Prim (Str ''userA'')), (''bar'', Prim (Num 30))]"
  have r: "reachable ?s" using example_new_reachable by simp
  have a: "arg_ok (nextAddr ?s) ?c" by (simp add: arg_ok_def)
  have ro: "readOnlyKeys (options ?s) = [''foo'', ''baz'']" using example_new_fields by simp
  have u: "userConfig ?s = []" using example_new_fields by simp
  note t = C4_readonly_filtering [OF r a, of False]
  from t [THEN conjunct1] obtain s1 where
    1: "setUserConfig ?s ?c False = Inr s1"
      "\<forall>k \<in> set (readOnlyKeys (options ?s)).
          map_of (userConfig s1) k = (if False then None else map_of (userConfig ?s) k)"
      "\<forall>k \<in> fst ` set ?c - set (readOnlyKeys (options ?s)).
          holds_value s1 (userConfig s1) k (get_prop ?c k)"
    by (elim exE conjE)
  from t [THEN conjunct2, THEN conjunct1] obtain s2 where
    2: "setEnvironmentConfig ?s ?c False = Inr s2"
      "\<forall>k \<in> fst ` set ?c. holds_value s2 (environmentConfig s2) k (get_prop ?c k)"
    by (elim exE conjE)
  have "map_of (userConfig s1) ''foo'' = None" using 1(2) ro u by simp
  moreover have "holds_value s1 (userConfig s1) ''bar'' (Prim (Num 30))"
    using 1(3) [rule_format, of "''bar''"] ro by (simp add: get_prop_def)
  moreover have "holds_value s2 (environmentConfig s2) ''foo'' (Prim (Str ''userA''))"
    using 2(2) [rule_format, of "''foo''"] by (simp add: get_prop_def)
  ultimately show ?thesis using r a 1(1) 2(1) by simp
qed

section \<open>Which subscribers a rebuild calls\<close>

text \<open>
  Claim C5. In a rebuild the listeners are served in order, each by \<open>notification\<close>.
  A listener with a non-empty key list is not called when none of its keys is in the
  buffer of changed keys; otherwise it is called exactly once, with a non-empty payload
  that holds, for exactly its keys in the buffer, what the merged configuration has
  under the key. After a successful \<open>setConfig(k, v)\<close> on a reachable state the calls
  made are those of one rebuild with \<open>k\<close> as the only changed key: a listener whose keys
  do not include \<open>k\<close> is not called, and one whose keys include \<open>k\<close> is called once with
  \<open>{k: {value: v, level: DYNAMIC, readonly: false}}\<close>.
\<close>

theorem C5_subscriber_notification:
  assumes "l_keys l \<noteq> []"
  shows "(set (l_keys l) \<inter> buf = {} \<longrightarrow> notification h cfg buf l = [])
    \<and> (set (l_keys l) \<inter> buf \<noteq> {} \<longrightarrow>
          (\<exists>p. notification h cfg buf l = [(l, p)] \<and> p \<noteq> [] \<and> distinct (map fst p)
             \<and> (\<forall>k. map_of p k = (if k \<in> set (l_keys l) \<inter> buf
                                     then Some (observe h (get_prop cfg k)) else None))))
    \<and> (config s = Some cfg \<longrightarrow>
          calls (triggerListeners s)
            = calls s @ concat (map (notification (heap s) cfg (changedKeysBuffer s)) (listeners s)))
    \<and> (reachable s \<longrightarrow> config s = Some cfg \<longrightarrow> k \<in> fst ` set cfg
          \<longrightarrow> k \<notin> set (readOnlyKeys (options s)) \<longrightarrow>
          (\<exists>s' cfg'. setConfig s k v = Inr (True, s') \<and> config s' = Some cfg'
             \<and> calls s' = calls s @ concat (map (notification (heap s') cfg' {k}) (listeners s))
             \<and> notification (heap s') cfg' {k} l
                 = (if k \<in> set (l_keys l)
                    then [(l, [(k, ObsObject \<lparr>val = v, level = DYNAMIC, readonly = Some False\<rparr>)])]
                    else [])))"
proof -
  have 1: "set (l_keys l) \<inter> buf = {} \<longrightarrow> notification h cfg buf l = []"
    using assms by (simp add: notification_def relevantChanges_Nil_iff)
  have 2: "set (l_keys l) \<inter> buf \<noteq> {} \<longrightarrow>
          (\<exists>p. notification h cfg buf l = [(l, p)] \<and> p \<noteq> [] \<and> distinct (map fst p)
             \<and> (\<forall>k. map_of p k = (if k \<in> set (l_keys l) \<inter> buf
                                     then Some (observe h (get_prop cfg k)) else None)))"
  proof
    assume ne: "set (l_keys l) \<inter> buf \<noteq> {}"
    let ?p = "snapshot h (relevantChanges cfg buf (l_keys l))"
    have "notification h cfg buf l = [(l, ?p)]"
      using assms ne by (simp add: notification_def relevantChanges_Nil_iff)
    moreover have "?p \<noteq> []" using ne by (simp add: snapshot_Nil_iff relevantChanges_Nil_iff)
    moreover have "distinct (map fst ?p)" by (simp add: map_fst_snapshot distinct_relevantChanges)
    moreover have "\<forall>k. map_of ?p k = (if k \<in> set (l_keys l) \<inter> buf
                                     then Some (observe h (get_prop cfg k)) else None)"
      by (simp add: map_of_snapshot map_of_relevantChanges)
    ultimately show "\<exists>p. notification h cfg buf l = [(l, p)] \<and> p \<noteq> [] \<and> distinct (map fst p)
             \<and> (\<forall>k. map_of p k = (if k \<in> set (l_keys l) \<inter> buf
                                     then Some (observe h (get_prop cfg k)) else None))"
      by blast
  qed
  have 3: "config s = Some cfg \<longrightarrow>
          calls (triggerListeners s)
            = calls s @ concat (map (notification (heap s) cfg (changedKeysBuffer s)) (listeners s))"
    by (simp add: trigger_closed)
  have 4: "\<exists>s' cfg'. setConfig s k v = Inr (True, s') \<and> config s' = Some cfg'
             \<and> calls s' = calls s @ concat (map (notification (heap s') cfg' {k}) (listeners s))
             \<and> notification (heap s') cfg' {k} l
                 = (if k \<in> set (l_keys l)
                    then [(l, [(k, ObsObject \<lparr>val = v, level = DYNAMIC, readonly = Some False\<rparr>)])]
                    else [])"
    if r: "reachable s" and c: "config s = Some cfg" and kc: "k \<in> fst ` set cfg"
      and kr: "k \<notin> set (readOnlyKeys (options s))"
  proof -
    have inv: "invariant s" using reachable_invariant [OF r] .
    then have ok: "stores_ok s" and cm: "cfg = merged s" and b: "changedKeysBuffer s = {}"
      using c by (simp_all add: invariant_def)
    let ?w = "s\<lparr>heap := (heap s)(nextAddr s := setConfig_object (observe (heap s) (get_prop (merged s) k)) v),
                   nextAddr := Suc (nextAddr s),
                   dynamicConfig := AList.update k (Obj (nextAddr s)) (dynamicConfig s),
                   changedKeysBuffer := insert k (changedKeysBuffer s)\<rparr>"
    note n1 = setConfig_new_cell(1) [OF ok kc [unfolded cm] kr]
    note n2 = setConfig_new_cell(2) [OF ok kc [unfolded cm] kr, where v = v]
    note n3 = setConfig_new_cell(3) [OF ok kc [unfolded cm] kr, where v = v]
    have sc: "setConfig s k v = Inr (True, rebuilt ?w)"
      using setConfig_closed(2) [OF ok c [unfolded cm] n1 kr] .
    have cs: "calls (rebuilt ?w)
        = calls s @ concat (map (notification (heap (rebuilt ?w)) (merged ?w) {k}) (listeners s))"
      by (simp add: rebuilt_def b)
    have nt: "notification (heap (rebuilt ?w)) (merged ?w) {k} l
                 = (if k \<in> set (l_keys l)
                    then [(l, [(k, ObsObject \<lparr>val = v, level = DYNAMIC, readonly = Some False\<rparr>)])]
                    else [])"
      using assms n2 n3
      by (simp add: notification_def relevantChanges_single snapshot_def observe_def)
    show ?thesis using sc cs nt by (simp add: rebuilt_fields(12))
  qed
  show ?thesis using 1 2 3 4 by blast
qed


theorem C5_subscriber_notification_witness:
  "l_keys \<lparr>l_id = (0, 7), l_keys = [''foo''], l_callback = 42\<rparr> \<noteq> []
   \<and> reachable example_subscribed
   \<and> listeners example_subscribed = [\<lparr>l_id = (0, 7), l_keys = [''foo''], l_callback = 42\<rparr>]
   \<and> (\<exists>s'. setConfig example_subscribed ''bar'' (Prim (Num 20)) = Inr (True, s')
          \<and> calls s' = [])
   \<and> (\<exists>s'. setConfig example_subscribed ''foo'' (Prim (Str ''newA'')) = Inr (True, s')
          \<and> calls s' = [(\<lparr>l_id = (0, 7), l_keys = [''foo''], l_callback = 42\<rparr>,
                [(''foo'', ObsObject \<lparr>val = Prim (Str ''newA''), level = DYNAMIC,
                                       readonly = Some False\<rparr>)])])"
proof -
  let ?l = "\<lparr>l_id = (0, 7), l_keys = [''foo''], l_callback = 42\<rparr>"
  let ?cfg = "[(''foo'', Obj 0), (''bar'', Obj 1)]"
  note e = example_subscribed_eval
  have k: "l_keys ?l \<noteq> []" by simp
  have r: "reachable example_subscribed" and c: "config example_subscribed = Some ?cfg"
    and ls: "listeners example_subscribed = [?l]" and cs: "calls example_subscribed = []"
    using e by simp_all
  have t: "\<exists>s' cfg'. setConfig example_subscribed key v = Inr (True, s') \<and> config s' = Some cfg'
             \<and> calls s' = calls example_subscribed
                  @ concat (map (notification (heap s') cfg' {key}) (listeners example_subscribed))
             \<and> notification (heap s') cfg' {key} ?l
                 = (if key \<in> set (l_keys ?l)
                    then [(?l, [(key, ObsObject \<lparr>val = v, level = DYNAMIC, readonly = Some False\<rparr>)])]
                    else [])"
    if "key \<in> fst ` set ?cfg" for key v
    using C5_subscriber_notification [OF k, where s = example_subscribed and cfg = ?cfg and k = key and v = v,
        THEN conjunct2, THEN conjunct2, THEN conjunct2, rule_format, OF r c that] e
    by simp
  have 1: "\<exists>s'. setConfig example_subscribed ''bar'' (Prim (Num 20)) = Inr (True, s') \<and> calls s' = []"
    using t [of "''bar''" "Prim (Num 20)"] by (auto simp: ls cs)
  have 2: "\<exists>s'. setConfig example_subscribed ''foo'' (Prim (Str ''newA'')) = Inr (True, s')
          \<and> calls s' = [(?l, [(''foo'', ObsObject \<lparr>val = Prim (Str ''newA''), level = DYNAMIC,
                                       readonly = Some False\<rparr>)])]"
    using t [of "''foo''" "Prim (Str ''newA'')"] by (auto simp: ls cs)
  show ?thesis using k r ls 1 2 by simp
qed

section \<open>Notification follows the write\<close>



section \<open>Construction with defaults that are not an object\<close>




section \<open>Unsubscribing\<close>

text \<open>
  Claim C8 asks the unsubscribe function to remove exactly its own registration. It
  filters the listeners by id, and an id is the length of the list at subscription
  followed by a random number: two registrations made at the same length with the same
  random number share an id. Here listener 1 subscribes and listener 2 subscribes (random
  number 7), listener 1 unsubscribes, listener 3 subscribes at length 1 and draws 7
  again: its id is that of listener 2, and its unsubscribe function removes both.
\<close>

theorem C8_listener_id_collision:
  "(let s0 = instance_of example_plain;
        (a, s1) = subscribe s0 (KeyArray [''foo'']) 1 5;
        (b, s2) = subscribe s1 (KeyArray [''foo'']) 2 7;
        s3 = unsubscribe a s2;
        (c, s4) = subscribe s3 (KeyArray [''bar'']) 3 7;
        s5 = unsubscribe c s4
    in c = b \<and> map l_callback (listeners s2) = [1, 2] \<and> map l_callback (listeners s3) = [2]
       \<and> map l_callback (listeners s4) = [2, 3] \<and> listeners s5 = [])"
proof -
  have "listeners (instance_of example_plain) = []"
    by (simp add: instance_of_def example_plain_def run_defs)
  then show ?thesis by (simp add: subscribe_def unsubscribe_def Let_def)
qed

section \<open>The configuration is built\<close>

text \<open>
  Claim C9. An instance the constructor returned has a merged configuration from then
  on: in every state reached by construction followed by any operations \<open>config\<close> is
  not \<open>null\<close>, and neither \<open>getConfig\<close> nor \<open>setConfig\<close> nor \<open>getConfigsForLevel\<close>
  throws \<open>CONFIGURATIONS_NOT_BUILT_YET\<close>.
\<close>

theorem C9_configuration_built:
  assumes "reachable s"
  shows "config s \<noteq> None
    \<and> (\<forall>k. getConfig s k \<noteq> Inl (ConfigurationError CONFIGURATIONS_NOT_BUILT_YET))
    \<and> (\<forall>k v. setConfig s k v \<noteq> Inl (ConfigurationError CONFIGURATIONS_NOT_BUILT_YET))
    \<and> (\<forall>lvl. getConfigsForLevel s lvl \<noteq> Inl (ConfigurationError CONFIGURATIONS_NOT_BUILT_YET))"
proof -
  have c: "config s = Some (merged s)"
    using reachable_invariant [OF assms] by (simp add: invariant_def)
  have 1: "getConfig s k \<noteq> Inl (ConfigurationError CONFIGURATIONS_NOT_BUILT_YET)" for k
    by (simp add: getConfig_def c)
  have 2: "setConfig s k v \<noteq> Inl (ConfigurationError CONFIGURATIONS_NOT_BUILT_YET)" for k v
  proof -
    obtain s' where "buildConfig (case alloc (setConfig_object (observe (heap s) (get_prop (merged s) k)) v) s of
        (a, s1) \<Rightarrow> s1\<lparr>dynamicConfig := AList.update k (Obj a) (dynamicConfig s1),
                     changedKeysBuffer := insert k (changedKeysBuffer s1)\<rparr>) = Inr s'"
      using buildConfig_total by blast
    then show ?thesis
      by (simp add: setConfig_def getConfig_def c split: prod.splits)
  qed
  have 3: "getConfigsForLevel s lvl \<noteq> Inl (ConfigurationError CONFIGURATIONS_NOT_BUILT_YET)" for lvl
    by (cases lvl) (simp_all add: getConfigsForLevel_def c)
  show ?thesis using c 1 2 3 by simp
qed

theorem C9_configuration_built_witness:
  "reachable (instance_of example_new)
   \<and> config (instance_of example_new) \<noteq> None
   \<and> getConfig (instance_of example_new) ''foo'' \<noteq> Inl (ConfigurationError CONFIGURATIONS_NOT_BUILT_YET)"
  using C9_configuration_built [of "instance_of example_new"] example_new_reachable by simp

section \<open>The static helpers\<close>

text \<open>
  Claim C10. Reading back with \<open>helperGetValue\<close> what \<open>helperSetValue\<close> produced from
  any original value, a bare scalar or an object, and a scalar \<open>v\<close> gives \<open>v\<close>.
\<close>

theorem C10_helper_roundtrip:
  "helperGetValue (snd (helperSetValue s original v)) (fst (helperSetValue s original v)) = Prim v"
  by (cases original) (simp_all add: helperSetValue_def helperGetValue_def alloc_def)

section \<open>Further properties\<close>

text \<open>
  A level write with \<open>override\<close> adds to the buffer of changed keys the keys of its
  argument only: the loop of \<open>updateChangedKeysBufferWithPartialConfig\<close> runs over the
  new keys, for which its test \<open>!(key in newConf)\<close> is never true. A listener none of
  whose keys is supplied is therefore not called, also when the override removes one of
  its keys from the store and so changes the effective value.
\<close>

theorem override_removal_not_notified:
  assumes "reachable s" "arg_ok (nextAddr s) conf" "l \<in> set (listeners s)"
    and "l_keys l \<noteq> []" "set (l_keys l) \<inter> fst ` set conf = {}"
  shows "\<exists>s'. setEnvironmentConfig s conf True = Inr s'
           \<and> fst ` set (environmentConfig s') = fst ` set conf
           \<and> (\<forall>p. (l, p) \<notin> set (drop (length (calls s)) (calls s')))"
proof -
  have inv: "invariant s" using reachable_invariant [OF assms(1)] .
  then have ok: "stores_ok s" and b0: "changedKeysBuffer s = {}" by (simp_all add: invariant_def)
  obtain built s1 where b: "buildConfigurationObjects s conf ENVIRONMENT = (built, s1)"
    by (cases "buildConfigurationObjects s conf ENVIRONMENT")
  note bo = bco_ok [OF assms(2) b]
  note f = heap_only_fields [OF bo(1)]
  let ?w = "s1\<lparr>environmentConfig := (if True then built else spread (environmentConfig s) built),
                  changedKeysBuffer := changedKeysBuffer s \<union> fst ` set conf\<rparr>"
  let ?h = "flagged (readOnlyKeys (options ?w)) (merged ?w) (levelled ?w)"
  have r: "setEnvironmentConfig s conf True = Inr (rebuilt ?w)"
    using setEnvironmentConfig_closed(2) [OF ok assms(2) b] .
  have k: "fst ` set (environmentConfig (rebuilt ?w)) = fst ` set conf"
    using bo(4) by (simp add: rebuilt_fields)
  have d: "drop (length (calls s)) (calls (rebuilt ?w))
      = concat (map (notification ?h (merged ?w) (fst ` set conf)) (listeners s))"
    by (simp add: rebuilt_def f b0)
  have own: "\<And>x p. (l, p) \<in> set (notification ?h (merged ?w) (fst ` set conf) x) \<Longrightarrow> x = l"
    by (auto simp: notification_def split: if_splits)
  have none: "notification ?h (merged ?w) (fst ` set conf) l = []"
    using assms(4,5) by (simp add: notification_def relevantChanges_Nil_iff)
  have "(l, p) \<notin> set (drop (length (calls s)) (calls (rebuilt ?w)))" for p
  proof
    assume "(l, p) \<in> set (drop (length (calls s)) (calls (rebuilt ?w)))"
    then obtain x where "(l, p) \<in> set (notification ?h (merged ?w) (fst ` set conf) x)"
      unfolding d by auto
    then show False using own none by fastforce
  qed
  then show ?thesis using r k by blast
qed

theorem override_removal_not_notified_witness:
  "reachable example_env
   \<and> getValue example_env ''foo'' = Prim (Str ''envA'')
   \<and> (\<exists>s'. setEnvironmentConfig example_env [(''bar'', Prim (Num 1))] True = Inr s'
          \<and> fst ` set (environmentConfig s') = {''bar''}
          \<and> (\<forall>p. (\<lparr>l_id = (0, 7), l_keys = [''foo''], l_callback = 42\<rparr>, p)
                 \<notin> set (drop (length (calls example_env)) (calls s'))))"
proof -
  note e = example_env_eval
  have "\<exists>s'. setEnvironmentConfig example_env [(''bar'', Prim (Num 1))] True = Inr s'
           \<and> fst ` set (environmentConfig s') = fst ` set [(''bar'', Prim (Num 1))]
           \<and> (\<forall>p. (\<lparr>l_id = (0, 7), l_keys = [''foo''], l_callback = 42\<rparr>, p)
                  \<notin> set (drop (length (calls example_env)) (calls s')))"
    by (rule override_removal_not_notified) (use e in \<open>simp_all add: arg_ok_def\<close>)
  then show ?thesis using e by simp
qed

text \<open>
  While the listener ids are pairwise distinct, the unsubscribe function of a listener
  removes that listener and no other, and calling it again changes nothing.
\<close>

theorem unsubscribe_exact:
  assumes "distinct (map l_id (listeners s))" "l \<in> set (listeners s)"
  shows "listeners (unsubscribe (l_id l) s) = remove1 l (listeners s)
    \<and> unsubscribe (l_id l) (unsubscribe (l_id l) s) = unsubscribe (l_id l) s"
  using unsubscribe_distinct [OF assms] unsubscribe_idem by simp

theorem unsubscribe_exact_witness:
  "distinct (map l_id (listeners example_subscribed))
   \<and> \<lparr>l_id = (0, 7), l_keys = [''foo''], l_callback = 42\<rparr> \<in> set (listeners example_subscribed)
   \<and> listeners (unsubscribe (0, 7) example_subscribed) = []"
proof -
  note e = example_subscribed_eval
  have d: "distinct (map l_id (listeners example_subscribed))" using e by simp
  have m: "\<lparr>l_id = (0, 7), l_keys = [''foo''], l_callback = 42\<rparr> \<in> set (listeners example_subscribed)"
    using e by simp
  from unsubscribe_exact [OF d m] e show ?thesis using d m by simp
qed

end
